theory Spec2Isabelle
  imports Main
begin

section \<open>Data model\<close>

text \<open>
  The ticket routes (\<^verbatim>\<open>POST /tickets\<close>, \<^verbatim>\<open>PATCH /tickets/:id\<close>,
  \<^verbatim>\<open>POST /tickets/call-next\<close>, \<^verbatim>\<open>DELETE /tickets/:id\<close>) work on four tables.
  A row of \<^verbatim>\<open>tickets\<close> carries the columns the handlers read or write (column \<^verbatim>\<open>id\<close>
  is \<open>ticket_id\<close>, column \<^verbatim>\<open>notes\<close> is \<open>ticket_notes\<close>). Identifiers,
  statuses and dates are strings, as the handlers pass them; timestamps are natural
  numbers; a nullable column is an option.
\<close>

record ticket =
  ticket_id :: string
  ticket_number :: string
  service_id :: string
  branch_id :: string
  priority_level :: int
  customer_name :: "string option"
  customer_phone :: "string option"
  ticket_notes :: "string option"
  issued_by :: "string option"
  status :: string
  counter_id :: "string option"
  served_by :: "string option"
  created_at :: nat
  called_at :: "nat option"
  started_at :: "nat option"
  ended_at :: "nat option"

type_synonym seq_key = "string \<times> string \<times> string"

text \<open>
  \<^verbatim>\<open>services\<close> maps a service id to its (nullable) prefix, \<^verbatim>\<open>counters\<close> a counter id
  to its (nullable) branch, \<^verbatim>\<open>ticket_sequences\<close> the key (service_id, branch_id, date)
  to \<^verbatim>\<open>current_number\<close>. The rows of \<^verbatim>\<open>tickets\<close> are kept in table order.
\<close>

record db =
  services :: "string \<rightharpoonup> string option"
  counters :: "string \<rightharpoonup> string option"
  ticket_sequences :: "seq_key \<rightharpoonup> nat"
  tickets :: "ticket list"

text \<open>
  Every awaited database call inside a handler's \<^verbatim>\<open>try\<close> block may throw. Which call
  throws, if any, is an input of the model; the handler's \<^verbatim>\<open>catch\<close> block then runs.
  A call that throws has had no effect on the store. A statement that the store rejects
  for a constraint of its schema is a call that throws. The events that the handlers
  publish after their last database call are not modelled, except where publishing
  throws.
\<close>

datatype db_call =
    BeginTransaction
  | SelectPrefix
  | UpsertSequence
  | SelectSequence
  | UpdateSequence
  | InsertTicket
  | Commit
  | FetchTicket
  | SelectNextTicket
  | UpdateTicket
  | SelectBranch

text \<open>
  The JSON bodies of the responses: \<^verbatim>\<open>{ticket}\<close>, \<^verbatim>\<open>{ticket: null, message}\<close>,
  \<^verbatim>\<open>{error}\<close> and \<^verbatim>\<open>{success: true}\<close>; a response is a status code with a body.
\<close>

datatype body =
    Ticket "ticket option"
  | NoTicket string
  | Error string
  | Success

datatype response = Response nat body

section \<open>JavaScript helpers\<close>

text \<open>A request field is absent (\<open>None\<close>) or a string; the empty string is falsy.\<close>

definition truthy :: "string option \<Rightarrow> bool" where
  "truthy v = (case v of None \<Rightarrow> False | Some s \<Rightarrow> s \<noteq> [])"

text \<open>\<^verbatim>\<open>x || null\<close>\<close>

definition or_null :: "string option \<Rightarrow> string option" where
  "or_null v = (if truthy v then v else None)"

text \<open>The string held by a field that was checked to be truthy.\<close>

definition string_value :: "string option \<Rightarrow> string" where
  "string_value v = (case v of None \<Rightarrow> [] | Some s \<Rightarrow> s)"

text \<open>\<^verbatim>\<open>String(n)\<close> for a non-negative integer in the range of an integer column:
  its decimal digits.\<close>

definition digit_char :: "nat \<Rightarrow> char" where
  "digit_char n = ''0123456789'' ! (n mod 10)"

fun string_of_nat :: "nat \<Rightarrow> string" where
  "string_of_nat n =
     (if n < 10 then [digit_char n] else string_of_nat (n div 10) @ [digit_char n])"

declare string_of_nat.simps [simp del]

text \<open>\<^verbatim>\<open>s.padStart(w, c)\<close> with a one-character pad string.\<close>

definition padStart :: "nat \<Rightarrow> char \<Rightarrow> string \<Rightarrow> string" where
  "padStart w c s = replicate (w - length s) c @ s"

section \<open>Ticket creation: \<^verbatim>\<open>POST /tickets\<close>\<close>

record create_request =
  req_service_id :: "string option"
  req_branch_id :: "string option"
  req_priority_level :: "int option"
  req_customer_name :: "string option"
  req_customer_phone :: "string option"
  req_notes :: "string option"
  req_user :: "string option"

text \<open>
  What the handler takes from its surroundings: the date string \<^verbatim>\<open>today\<close>, the fresh
  \<^verbatim>\<open>uuidv4()\<close>, the clock of the store (the default of \<^verbatim>\<open>created_at\<close>), and the call
  that throws.
\<close>

record create_env =
  today :: string
  uuid :: string
  clock :: nat
  fault :: "db_call option"

text \<open>\<^verbatim>\<open>services[0]?.prefix || 'TKT'\<close>\<close>

definition service_prefix :: "db \<Rightarrow> string \<Rightarrow> string" where
  "service_prefix d sid =
     (case services d sid of
        None \<Rightarrow> ''TKT''
      | Some p \<Rightarrow> (case p of None \<Rightarrow> ''TKT'' | Some s \<Rightarrow> if s = [] then ''TKT'' else s))"

text \<open>
  \<^verbatim>\<open>INSERT ... VALUES (?, ?, 0, ?) ON DUPLICATE KEY UPDATE current_number = current_number\<close>
\<close>

definition upsert_sequence :: "seq_key \<Rightarrow> db \<Rightarrow> db" where
  "upsert_sequence k d =
     (case ticket_sequences d k of
        None \<Rightarrow> d\<lparr>ticket_sequences := (ticket_sequences d)(k \<mapsto> 0)\<rparr>
      | Some n \<Rightarrow> d)"

text \<open>\<^verbatim>\<open>sequences[0]?.current_number || 0\<close>\<close>

definition current_number :: "db \<Rightarrow> seq_key \<Rightarrow> nat" where
  "current_number d k = (case ticket_sequences d k of None \<Rightarrow> 0 | Some n \<Rightarrow> n)"

text \<open>\<^verbatim>\<open>UPDATE ticket_sequences SET current_number = ? WHERE ...\<close>\<close>

definition update_sequence :: "seq_key \<Rightarrow> nat \<Rightarrow> db \<Rightarrow> db" where
  "update_sequence k n d =
     (case ticket_sequences d k of
        None \<Rightarrow> d
      | Some m \<Rightarrow> d\<lparr>ticket_sequences := (ticket_sequences d)(k \<mapsto> n)\<rparr>)"

text \<open>\<^verbatim>\<open>`${prefix}-${String(currentNumber).padStart(3, '0')}`\<close>\<close>

definition format_ticket_number :: "string \<Rightarrow> nat \<Rightarrow> string" where
  "format_ticket_number prefix n = prefix @ ''-'' @ padStart 3 (CHR ''0'') (string_of_nat n)"

text \<open>The row of \<^verbatim>\<open>INSERT INTO tickets (...) VALUES (..., 'waiting')\<close>; the columns the
  statement leaves out take their defaults.\<close>

definition new_ticket :: "create_env \<Rightarrow> create_request \<Rightarrow> string \<Rightarrow> string \<Rightarrow> string \<Rightarrow> ticket" where
  "new_ticket env req sid bid ticketNumber =
     \<lparr> ticket_id = uuid env,
       ticket_number = ticketNumber,
       service_id = sid,
       branch_id = bid,
       priority_level = (case req_priority_level req of None \<Rightarrow> 0 | Some p \<Rightarrow> p),
       customer_name = or_null (req_customer_name req),
       customer_phone = or_null (req_customer_phone req),
       ticket_notes = or_null (req_notes req),
       issued_by = or_null (req_user req),
       status = ''waiting'',
       counter_id = None,
       served_by = None,
       created_at = clock env,
       called_at = None,
       started_at = None,
       ended_at = None \<rparr>"

definition insert_ticket :: "ticket \<Rightarrow> db \<Rightarrow> db" where
  "insert_ticket t d = d\<lparr>tickets := tickets d @ [t]\<rparr>"

text \<open>\<^verbatim>\<open>SELECT t.*, ... FROM tickets t ... WHERE t.id = ?\<close>, then \<^verbatim>\<open>tickets[0]\<close>\<close>

definition fetch_ticket :: "db \<Rightarrow> string \<Rightarrow> ticket option" where
  "fetch_ticket d tid = find (\<lambda>t. ticket_id t = tid) (tickets d)"

text \<open>
  The statements between \<^verbatim>\<open>beginTransaction()\<close> and \<^verbatim>\<open>commit()\<close>, in the handler's
  order. \<open>None\<close>: a call threw, so nothing of the transaction is kept. Otherwise the
  store as committed, with the handler's \<^verbatim>\<open>currentNumber\<close> and \<^verbatim>\<open>ticketNumber\<close>.
\<close>

definition create_transaction ::
  "create_env \<Rightarrow> create_request \<Rightarrow> string \<Rightarrow> string \<Rightarrow> db \<Rightarrow> (db \<times> nat \<times> string) option" where
  "create_transaction env req sid bid d =
     (if fault env = Some BeginTransaction then None
      else if fault env = Some SelectPrefix then None
      else let prefix = service_prefix d sid in
      if fault env = Some UpsertSequence then None
      else let k = (sid, bid, today env); d1 = upsert_sequence k d in
      if fault env = Some SelectSequence then None
      else let currentNumber = current_number d1 k + 1 in
      if fault env = Some UpdateSequence then None
      else let d2 = update_sequence k currentNumber d1;
               ticketNumber = format_ticket_number prefix currentNumber in
      if fault env = Some InsertTicket then None
      else let d3 = insert_ticket (new_ticket env req sid bid ticketNumber) d2 in
      if fault env = Some Commit then None
      else Some (d3, currentNumber, ticketNumber))"

text \<open>
  The handler: the store after the request, and the response. A throw before the commit
  reaches \<^verbatim>\<open>catch\<close>, whose \<^verbatim>\<open>rollback()\<close> leaves the store as it was; a throw of the
  re-read after the commit reaches the same \<^verbatim>\<open>catch\<close> with the transaction committed.
\<close>

definition create_ticket :: "create_env \<Rightarrow> create_request \<Rightarrow> db \<Rightarrow> db \<times> response" where
  "create_ticket env req d =
     (if \<not> truthy (req_service_id req) \<or> \<not> truthy (req_branch_id req)
      then (d, Response 400 (Error ''service_id and branch_id are required''))
      else case create_transaction env req (string_value (req_service_id req))
                  (string_value (req_branch_id req)) d of
        None \<Rightarrow> (d, Response 500 (Error ''Failed to create ticket''))
      | Some (d', currentNumber, ticketNumber) \<Rightarrow>
          if fault env = Some FetchTicket
          then (d', Response 500 (Error ''Failed to create ticket''))
          else (d', Response 201 (Ticket (fetch_ticket d' (uuid env)))))"

section \<open>Dispatch: \<^verbatim>\<open>POST /tickets/call-next\<close>\<close>

record call_next_request =
  cn_service_id :: "string option"
  cn_counter_id :: "string option"

record call_next_env =
  cn_now :: nat
  cn_fault :: "db_call option"

text \<open>
  The \<^verbatim>\<open>WHERE\<close> clause: \<^verbatim>\<open>status = 'waiting'\<close>,
  \<^verbatim>\<open>branch_id = (SELECT branch_id FROM counters WHERE id = ?)\<close> (no counter row, or a
  counter without branch, compares with NULL and matches nothing), and
  \<^verbatim>\<open>service_id = ?\<close> only when the request's \<^verbatim>\<open>service_id\<close> is truthy.
\<close>

definition eligible :: "db \<Rightarrow> string \<Rightarrow> string option \<Rightarrow> ticket \<Rightarrow> bool" where
  "eligible d cid sid t =
     (status t = ''waiting'' \<and>
      counters d cid = Some (Some (branch_id t)) \<and>
      (if truthy sid then service_id t = string_value sid else True))"

text \<open>
  \<^verbatim>\<open>ORDER BY priority_level DESC, created_at ASC LIMIT 1\<close>: \<open>precedes t u\<close> when \<open>t\<close>
  sorts strictly before \<open>u\<close>. Rows that tie on both columns are taken in table order.
\<close>

definition precedes :: "ticket \<Rightarrow> ticket \<Rightarrow> bool" where
  "precedes t u =
     (priority_level t > priority_level u \<or>
      (priority_level t = priority_level u \<and> created_at t < created_at u))"

fun first_in_order :: "ticket list \<Rightarrow> ticket option" where
  "first_in_order [] = None"
| "first_in_order (t # ts) =
     (case first_in_order ts of
        None \<Rightarrow> Some t
      | Some u \<Rightarrow> if precedes u t then Some u else Some t)"

definition select_next :: "db \<Rightarrow> string \<Rightarrow> string option \<Rightarrow> ticket option" where
  "select_next d cid sid = first_in_order (filter (eligible d cid sid) (tickets d))"

text \<open>
  \<^verbatim>\<open>UPDATE tickets SET status = 'serving', counter_id = ?, called_at = ?, started_at = ?
  WHERE id = ?\<close>
\<close>

definition mark_serving :: "string \<Rightarrow> nat \<Rightarrow> ticket \<Rightarrow> ticket" where
  "mark_serving cid now t =
     t\<lparr>status := ''serving'', counter_id := Some cid, called_at := Some now,
       started_at := Some now\<rparr>"

definition update_where_id :: "string \<Rightarrow> (ticket \<Rightarrow> ticket) \<Rightarrow> db \<Rightarrow> db" where
  "update_where_id tid f d =
     d\<lparr>tickets := map (\<lambda>t. if ticket_id t = tid then f t else t) (tickets d)\<rparr>"

definition call_next :: "call_next_env \<Rightarrow> call_next_request \<Rightarrow> db \<Rightarrow> db \<times> response" where
  "call_next env req d =
     (if \<not> truthy (cn_counter_id req)
      then (d, Response 400 (Error ''counter_id is required''))
      else let cid = string_value (cn_counter_id req) in
      if cn_fault env = Some BeginTransaction \<or> cn_fault env = Some SelectNextTicket
      then (d, Response 500 (Error ''Failed to call next ticket''))
      else case select_next d cid (cn_service_id req) of
        None \<Rightarrow>
          if cn_fault env = Some Commit
          then (d, Response 500 (Error ''Failed to call next ticket''))
          else (d, Response 200 (NoTicket ''No tickets in queue''))
      | Some t \<Rightarrow>
          if cn_fault env = Some UpdateTicket \<or> cn_fault env = Some Commit
          then (d, Response 500 (Error ''Failed to call next ticket''))
          else let d' = update_where_id (ticket_id t) (mark_serving cid (cn_now env)) d in
          if cn_fault env = Some FetchTicket
          then (d', Response 500 (Error ''Failed to call next ticket''))
          else (case fetch_ticket d' (ticket_id t) of
                  None \<Rightarrow> (d', Response 500 (Error ''Failed to call next ticket''))
                | Some r \<Rightarrow> (d', Response 200 (Ticket (Some r)))))"

section \<open>Status update: \<^verbatim>\<open>PATCH /tickets/:id\<close>\<close>

record patch_request =
  p_id :: string
  p_status :: "string option"
  p_counter_id :: "string option"
  p_notes :: "string option"
  p_user :: string

record patch_env =
  p_now :: nat
  p_fault :: "db_call option"

text \<open>The assignments the handler collects in \<^verbatim>\<open>updates\<close>, applied to one row.\<close>

definition patch_status :: "patch_env \<Rightarrow> patch_request \<Rightarrow> ticket \<Rightarrow> ticket" where
  "patch_status env req t =
     (if truthy (p_status req)
      then let s = string_value (p_status req); t1 = t\<lparr>status := s\<rparr> in
        if s = ''serving'' then t1\<lparr>started_at := Some (p_now env)\<rparr>
        else if s \<in> set [''done'', ''cancelled'', ''skipped'']
        then t1\<lparr>ended_at := Some (p_now env), served_by := Some (p_user req)\<rparr>
        else t1
      else t)"

definition patch_row :: "patch_env \<Rightarrow> patch_request \<Rightarrow> ticket \<Rightarrow> ticket" where
  "patch_row env req t =
     (let t1 = patch_status env req t;
          t2 = (if truthy (p_counter_id req) then t1\<lparr>counter_id := p_counter_id req\<rparr> else t1)
      in if truthy (p_notes req) then t2\<lparr>ticket_notes := p_notes req\<rparr> else t2)"

text \<open>
  The update runs outside any transaction, so it stays when a later call throws. When the
  re-read finds no row, \<^verbatim>\<open>tickets[0]\<close> is undefined and \<^verbatim>\<open>emitTicketUpdated\<close>, which reads
  \<^verbatim>\<open>ticket.branch_id\<close> inside the \<^verbatim>\<open>try\<close>, throws: the answer is the failure response.
\<close>

definition patch_ticket :: "patch_env \<Rightarrow> patch_request \<Rightarrow> db \<Rightarrow> db \<times> response" where
  "patch_ticket env req d =
     (if \<not> truthy (p_status req) \<and> \<not> truthy (p_counter_id req) \<and> \<not> truthy (p_notes req)
      then (d, Response 400 (Error ''No updates provided''))
      else if p_fault env = Some UpdateTicket
      then (d, Response 500 (Error ''Failed to update ticket''))
      else let d' = update_where_id (p_id req) (patch_row env req) d in
      if p_fault env = Some FetchTicket
      then (d', Response 500 (Error ''Failed to update ticket''))
      else (case fetch_ticket d' (p_id req) of
              None \<Rightarrow> (d', Response 500 (Error ''Failed to update ticket''))
            | Some t \<Rightarrow> (d', Response 200 (Ticket (Some t)))))"

section \<open>Soft delete: \<^verbatim>\<open>DELETE /tickets/:id\<close>\<close>

record delete_env =
  del_now :: nat
  del_fault :: "db_call option"

text \<open>\<^verbatim>\<open>UPDATE tickets SET status = 'cancelled', ended_at = NOW() WHERE id = ?\<close>\<close>

definition cancel_row :: "nat \<Rightarrow> ticket \<Rightarrow> ticket" where
  "cancel_row now t = t\<lparr>status := ''cancelled'', ended_at := Some now\<rparr>"

definition delete_ticket :: "delete_env \<Rightarrow> string \<Rightarrow> db \<Rightarrow> db \<times> response" where
  "delete_ticket env tid d =
     (if del_fault env = Some SelectBranch
      then (d, Response 500 (Error ''Failed to delete ticket''))
      else case fetch_ticket d tid of
        None \<Rightarrow> (d, Response 404 (Error ''Ticket not found''))
      | Some t \<Rightarrow>
          if del_fault env = Some UpdateTicket
          then (d, Response 500 (Error ''Failed to delete ticket''))
          else (update_where_id tid (cancel_row (del_now env)) d, Response 200 Success))"

section \<open>Sequences of requests\<close>

text \<open>
  The store serialises conflicting transactions (the row locks of \<^verbatim>\<open>FOR UPDATE\<close> are
  held until commit), so a history of requests is the list of requests in commit order.
\<close>

datatype request =
    Create create_env create_request
  | CallNext call_next_env call_next_request
  | Patch patch_env patch_request
  | Delete delete_env string

fun handle :: "request \<Rightarrow> db \<Rightarrow> db \<times> response" where
  "handle (Create env req) d = create_ticket env req d"
| "handle (CallNext env req) d = call_next env req d"
| "handle (Patch env req) d = patch_ticket env req d"
| "handle (Delete env tid) d = delete_ticket env tid d"

fun run :: "request list \<Rightarrow> db \<Rightarrow> db \<times> response list" where
  "run [] d = (d, [])"
| "run (r # rs) d =
     (case handle r d of (d1, resp) \<Rightarrow>
        (case run rs d1 of (d2, resps) \<Rightarrow> (d2, resp # resps)))"

section \<open>Auxiliary notions for the statements\<close>

text \<open>The decimal value of a string of digits, to read a formatted number back.\<close>

definition nat_of_string :: "string \<Rightarrow> nat" where
  "nat_of_string s = foldl (\<lambda>acc c. 10 * acc + (of_char c - 48)) 0 s"

text \<open>The awaited calls of the creation transaction, \<^verbatim>\<open>beginTransaction()\<close> to
  \<^verbatim>\<open>commit()\<close>.\<close>

definition create_calls :: "db_call list" where
  "create_calls =
     [BeginTransaction, SelectPrefix, UpsertSequence, SelectSequence, UpdateSequence,
      InsertTicket, Commit]"

text \<open>Whether the call that throws, if any, is one of the given calls.\<close>

definition throws_in :: "db_call list \<Rightarrow> db_call option \<Rightarrow> bool" where
  "throws_in calls f = (case f of None \<Rightarrow> False | Some c \<Rightarrow> c \<in> set calls)"

text \<open>An example store: service \<open>A\<close> with prefix \<open>A\<close>, counter \<open>C1\<close> of branch \<open>B1\<close>, no
  sequence row and no ticket; and example requests on it.\<close>

definition example_db :: db where
  "example_db =
     \<lparr> services = [''A'' \<mapsto> Some ''A''],
       counters = [''C1'' \<mapsto> Some ''B1''],
       ticket_sequences = Map.empty,
       tickets = [] \<rparr>"

definition example_create :: "string \<Rightarrow> int \<Rightarrow> create_request" where
  "example_create sid p =
     \<lparr> req_service_id = Some sid, req_branch_id = Some ''B1'',
       req_priority_level = Some p, req_customer_name = None, req_customer_phone = None,
       req_notes = None, req_user = None \<rparr>"

definition example_env :: "string \<Rightarrow> nat \<Rightarrow> db_call option \<Rightarrow> create_env" where
  "example_env u c f = \<lparr> today = ''2024-01-01'', uuid = u, clock = c, fault = f \<rparr>"

text \<open>The awaited calls of a dispatch that finds no ticket.\<close>

definition empty_queue_calls :: "db_call list" where
  "empty_queue_calls = [BeginTransaction, SelectNextTicket, Commit]"

text \<open>The columns of a ticket that the dispatch statement does not assign.\<close>

definition columns_kept_by_dispatch ::
  "ticket \<Rightarrow> (string \<times> string \<times> string \<times> string \<times> int) \<times>
     (string option \<times> string option \<times> string option \<times> string option) \<times>
     (string option \<times> nat \<times> nat option)" where
  "columns_kept_by_dispatch t =
     ((ticket_id t, ticket_number t, service_id t, branch_id t, priority_level t),
      (customer_name t, customer_phone t, ticket_notes t, issued_by t),
      (served_by t, created_at t, ended_at t))"

text \<open>The columns fixed at creation.\<close>

definition creation_columns :: "ticket \<Rightarrow> string \<times> string \<times> string \<times> string" where
  "creation_columns t = (ticket_id t, ticket_number t, service_id t, branch_id t)"

text \<open>An example row of service \<open>A\<close> in branch \<open>B1\<close>, and a queue of three waiting
  tickets with priority levels 0, 0, 2 created at times 1, 2, 3.\<close>

definition example_ticket :: "string \<Rightarrow> string \<Rightarrow> int \<Rightarrow> nat \<Rightarrow> string \<Rightarrow> ticket" where
  "example_ticket i num p c s =
     \<lparr> ticket_id = i, ticket_number = num, service_id = ''A'', branch_id = ''B1'',
       priority_level = p, customer_name = None, customer_phone = None,
       ticket_notes = None, issued_by = None, status = s, counter_id = None,
       served_by = None, created_at = c, called_at = None, started_at = None,
       ended_at = None \<rparr>"

definition example_queue :: db where
  "example_queue =
     example_db\<lparr>tickets :=
       [example_ticket ''t1'' ''A-001'' 0 1 ''waiting'',
        example_ticket ''t2'' ''A-002'' 0 2 ''waiting'',
        example_ticket ''t3'' ''A-003'' 2 3 ''waiting'']\<rparr>"

definition example_call_env :: call_next_env where
  "example_call_env = \<lparr> cn_now = 10, cn_fault = None \<rparr>"

definition example_call_request :: "string \<Rightarrow> call_next_request" where
  "example_call_request cid = \<lparr> cn_service_id = None, cn_counter_id = Some cid \<rparr>"

text \<open>The id of the ticket a response carries, if it carries one.\<close>

fun served_id :: "response \<Rightarrow> string option" where
  "served_id (Response c (Ticket (Some t))) = Some (ticket_id t)"
| "served_id (Response c b) = None"


text \<open>All awaited calls of the creation handler: the transaction, then the re-read.\<close>

definition create_handler_calls :: "db_call list" where
  "create_handler_calls = create_calls @ [FetchTicket]"

text \<open>The terminal statuses.\<close>

definition terminal :: "string \<Rightarrow> bool" where
  "terminal s = (s \<in> set [''done'', ''cancelled'', ''skipped''])"

text \<open>An example store with one finished ticket, and a patch that asks for a status.\<close>

definition example_done :: db where
  "example_done = example_db\<lparr>tickets := [example_ticket ''t1'' ''A-001'' 0 1 ''done'']\<rparr>"

definition example_patch :: "string \<Rightarrow> patch_request" where
  "example_patch s =
     \<lparr> p_id = ''t1'', p_status = Some s, p_counter_id = None, p_notes = None,
       p_user = ''staff'' \<rparr>"

definition example_patch_env :: patch_env where
  "example_patch_env = \<lparr> p_now = 20, p_fault = None \<rparr>"

text \<open>
  The value of \<^verbatim>\<open>currentNumber\<close> that a request allocates for the key \<open>k\<close>: the one its
  creation transaction returns if the request is a creation for that key and commits, and
  none otherwise. Over a history, the values in the order of the requests.
\<close>

fun allocated_by :: "request \<Rightarrow> db \<Rightarrow> seq_key \<Rightarrow> nat list" where
  "allocated_by (Create env req) d k =
     (if truthy (req_service_id req) \<and> truthy (req_branch_id req) \<and>
         k = (string_value (req_service_id req), string_value (req_branch_id req), today env)
      then case create_transaction env req (string_value (req_service_id req))
                  (string_value (req_branch_id req)) d of
             None \<Rightarrow> []
           | Some (d', currentNumber, ticketNumber) \<Rightarrow> [currentNumber]
      else [])"
| "allocated_by r d k = []"

fun allocated :: "request list \<Rightarrow> db \<Rightarrow> seq_key \<Rightarrow> nat list" where
  "allocated [] d k = []"
| "allocated (r # rs) d k = allocated_by r d k @ allocated rs (fst (handle r d)) k"

text \<open>An example history: three creations for service \<open>A\<close>, with a creation for another
  service, a creation whose insertion throws, and a dispatch in between.\<close>

definition example_history :: "request list" where
  "example_history =
     [Create (example_env ''u1'' 1 None) (example_create ''A'' 0),
      Create (example_env ''u2'' 2 None) (example_create ''Z'' 0),
      Create (example_env ''u3'' 3 (Some InsertTicket)) (example_create ''A'' 0),
      CallNext example_call_env (example_call_request ''C1''),
      Create (example_env ''u4'' 4 None) (example_create ''A'' 0),
      Create (example_env ''u5'' 5 None) (example_create ''A'' 0)]"

section \<open>Concurrent dispatch\<close>

text \<open>
  Several \<^verbatim>\<open>POST /tickets/call-next\<close> requests in flight at once. Each request runs the
  statements of the handler in the handler's order, one statement per step, on its own
  connection; a schedule says which request takes the next step. The store keeps the
  committed rows.

  The row lock of \<^verbatim>\<open>SELECT ... FOR UPDATE\<close> is the storage engine's, not this
  repository's code. It is modelled as the specification describes it: the statement
  takes an exclusive lock on the row it returns, the lock is held until the transaction
  commits or rolls back, and a request whose head of the queue is locked by another
  transaction waits (its step changes nothing) instead of selecting a different row.
\<close>

datatype phase =
    Started
  | Locked ticket
  | Written ticket
  | Committed ticket
  | Finished response

record session =
  s_env :: call_next_env
  s_req :: call_next_request
  s_phase :: phase

record system =
  store :: db
  sessions :: "session list"

text \<open>A session holds the lock of the row it selected until it commits or rolls back.\<close>

definition holds_lock :: "session \<Rightarrow> string \<Rightarrow> bool" where
  "holds_lock s tid =
     (case s_phase s of
        Locked t \<Rightarrow> ticket_id t = tid
      | Written t \<Rightarrow> ticket_id t = tid
      | _ \<Rightarrow> False)"

definition locked_by_other :: "nat \<Rightarrow> string \<Rightarrow> system \<Rightarrow> bool" where
  "locked_by_other i tid cs =
     (\<exists>j \<in> set [0 ..< length (sessions cs)]. j \<noteq> i \<and> holds_lock (sessions cs ! j) tid)"

definition set_phase :: "nat \<Rightarrow> phase \<Rightarrow> system \<Rightarrow> system" where
  "set_phase i p cs = cs\<lparr>sessions := (sessions cs)[i := (sessions cs ! i)\<lparr>s_phase := p\<rparr>]\<rparr>"

definition failed :: phase where
  "failed = Finished (Response 500 (Error ''Failed to call next ticket''))"

text \<open>
  One step of session \<open>i\<close>: from \<open>Started\<close>, the validation, \<^verbatim>\<open>beginTransaction()\<close> and
  the locking \<^verbatim>\<open>SELECT\<close> (with the commit of the empty case); from \<open>Locked\<close>, the
  \<^verbatim>\<open>UPDATE\<close>, whose row stays private to the transaction; from \<open>Written\<close>, the commit,
  which publishes the row and releases the lock; from \<open>Committed\<close>, the re-read and the
  response.
\<close>

definition step :: "nat \<Rightarrow> system \<Rightarrow> system" where
  "step i cs =
     (if i < length (sessions cs)
      then let s = sessions cs ! i; env = s_env s; req = s_req s;
               cid = string_value (cn_counter_id req)
           in case s_phase s of
                Started \<Rightarrow>
                  if \<not> truthy (cn_counter_id req)
                  then set_phase i (Finished (Response 400 (Error ''counter_id is required''))) cs
                  else if cn_fault env = Some BeginTransaction \<or>
                          cn_fault env = Some SelectNextTicket
                  then set_phase i failed cs
                  else (case select_next (store cs) cid (cn_service_id req) of
                          None \<Rightarrow>
                            if cn_fault env = Some Commit then set_phase i failed cs
                            else set_phase i
                                   (Finished (Response 200 (NoTicket ''No tickets in queue''))) cs
                        | Some t \<Rightarrow>
                            if locked_by_other i (ticket_id t) cs then cs
                            else set_phase i (Locked t) cs)
              | Locked t \<Rightarrow>
                  if cn_fault env = Some UpdateTicket then set_phase i failed cs
                  else set_phase i (Written t) cs
              | Written t \<Rightarrow>
                  if cn_fault env = Some Commit then set_phase i failed cs
                  else set_phase i (Committed t)
                         (cs\<lparr>store := update_where_id (ticket_id t)
                                         (mark_serving cid (cn_now env)) (store cs)\<rparr>)
              | Committed t \<Rightarrow>
                  if cn_fault env = Some FetchTicket then set_phase i failed cs
                  else (case fetch_ticket (store cs) (ticket_id t) of
                          None \<Rightarrow> set_phase i failed cs
                        | Some r \<Rightarrow> set_phase i (Finished (Response 200 (Ticket (Some r)))) cs)
              | Finished r \<Rightarrow> cs
      else cs)"

fun exec :: "nat list \<Rightarrow> system \<Rightarrow> system" where
  "exec [] cs = cs"
| "exec (i # sched) cs = exec sched (step i cs)"

definition start :: "db \<Rightarrow> (call_next_env \<times> call_next_request) list \<Rightarrow> system" where
  "start d rs =
     \<lparr> store = d,
       sessions = map (\<lambda>(env, req). \<lparr> s_env = env, s_req = req, s_phase = Started \<rparr>) rs \<rparr>"

text \<open>The response of a session, once it has one; whether all sessions have one.\<close>

fun response_of :: "phase \<Rightarrow> response option" where
  "response_of (Finished r) = Some r"
| "response_of p = None"

definition all_finished :: "system \<Rightarrow> bool" where
  "all_finished cs = list_all (\<lambda>s. response_of (s_phase s) \<noteq> None) (sessions cs)"

definition responses :: "system \<Rightarrow> response list" where
  "responses cs = concat (map (\<lambda>s. case response_of (s_phase s) of None \<Rightarrow> [] | Some r \<Rightarrow> [r])
                            (sessions cs))"

text \<open>
  The pool of a branch and service filter: its waiting tickets. A request belongs to the
  pool when it names a counter of the branch, carries the filter, and none of its calls
  throws.
\<close>

definition in_pool :: "string \<Rightarrow> string option \<Rightarrow> ticket \<Rightarrow> bool" where
  "in_pool b sf t =
     (status t = ''waiting'' \<and> branch_id t = b \<and>
      (if truthy sf then service_id t = string_value sf else True))"

definition pool :: "string \<Rightarrow> string option \<Rightarrow> db \<Rightarrow> ticket list" where
  "pool b sf d = filter (in_pool b sf) (tickets d)"

definition pool_request ::
  "string \<Rightarrow> string option \<Rightarrow> db \<Rightarrow> call_next_env \<times> call_next_request \<Rightarrow> bool" where
  "pool_request b sf d r =
     (cn_fault (fst r) = None \<and> truthy (cn_counter_id (snd r)) \<and>
      counters d (string_value (cn_counter_id (snd r))) = Some (Some b) \<and>
      cn_service_id (snd r) = sf)"

text \<open>The ids of the tickets the responses carry, in the order of the sessions.\<close>

definition served_ids :: "system \<Rightarrow> string list" where
  "served_ids cs =
     concat (map (\<lambda>r. case served_id r of None \<Rightarrow> [] | Some a \<Rightarrow> [a]) (responses cs))"

definition queue_empty_count :: "system \<Rightarrow> nat" where
  "queue_empty_count cs =
     length (filter (\<lambda>r. r = Response 200 (NoTicket ''No tickets in queue'')) (responses cs))"

text \<open>
  What holds between the committed store and the phases of the sessions while requests of
  one pool run: a locked row is a waiting ticket of the pool that no other session has
  locked; a ticket that a session has committed or returned is serving in the store and
  belongs to that session alone; the sessions that have committed and the waiting tickets
  of the pool add up to the size of the pool at the start; a session has seen an empty
  queue only if the pool is empty; the store differs from the initial one only in tickets
  of the pool that are now serving.
\<close>

fun row_of :: "phase \<Rightarrow> ticket option" where
  "row_of (Locked t) = Some t"
| "row_of (Written t) = Some t"
| "row_of p = None"

fun served_of :: "phase \<Rightarrow> string option" where
  "served_of (Committed t) = Some (ticket_id t)"
| "served_of (Finished r) = served_id r"
| "served_of p = None"

definition served_mark :: "phase \<Rightarrow> nat" where
  "served_mark p = (case served_of p of None \<Rightarrow> 0 | Some a \<Rightarrow> 1)"

definition queue_empty :: phase where
  "queue_empty = Finished (Response 200 (NoTicket ''No tickets in queue''))"

definition inv_store :: "db \<Rightarrow> string \<Rightarrow> string option \<Rightarrow> db \<Rightarrow> bool" where
  "inv_store d0 b sf d =
     (counters d = counters d0 \<and> distinct (map ticket_id (tickets d)) \<and>
      length (tickets d) = length (tickets d0) \<and>
      (\<forall>i < length (tickets d0).
         tickets d ! i = tickets d0 ! i \<or>
         (in_pool b sf (tickets d0 ! i) \<and> status (tickets d ! i) = ''serving'')))"

definition inv_locks :: "string \<Rightarrow> string option \<Rightarrow> db \<Rightarrow> phase list \<Rightarrow> bool" where
  "inv_locks b sf d ps =
     (\<forall>j < length ps. \<forall>t. row_of (ps ! j) = Some t \<longrightarrow>
        t \<in> set (tickets d) \<and> in_pool b sf t \<and>
        (\<forall>j' < length ps. \<forall>t'. j' \<noteq> j \<and> row_of (ps ! j') = Some t' \<longrightarrow>
           ticket_id t' \<noteq> ticket_id t))"

definition inv_served :: "db \<Rightarrow> phase list \<Rightarrow> bool" where
  "inv_served d ps =
     (\<forall>j < length ps. \<forall>a. served_of (ps ! j) = Some a \<longrightarrow>
        (\<exists>row \<in> set (tickets d). ticket_id row = a \<and> status row = ''serving'') \<and>
        (\<forall>j' < length ps. j' \<noteq> j \<longrightarrow> served_of (ps ! j') \<noteq> Some a))"

definition inv_count :: "nat \<Rightarrow> string \<Rightarrow> string option \<Rightarrow> db \<Rightarrow> phase list \<Rightarrow> bool" where
  "inv_count K b sf d ps =
     (sum_list (map served_mark ps) + length (pool b sf d) = K \<and>
      (queue_empty \<in> set ps \<longrightarrow> pool b sf d = []) \<and>
      (\<forall>p \<in> set ps. \<forall>r. p = Finished r \<longrightarrow> p = queue_empty \<or> served_of p \<noteq> None))"

definition invariant :: "db \<Rightarrow> string \<Rightarrow> string option \<Rightarrow> system \<Rightarrow> bool" where
  "invariant d0 b sf cs =
     (inv_store d0 b sf (store cs) \<and>
      (\<forall>s \<in> set (sessions cs). pool_request b sf d0 (s_env s, s_req s)) \<and>
      inv_locks b sf (store cs) (map s_phase (sessions cs)) \<and>
      inv_served (store cs) (map s_phase (sessions cs)) \<and>
      inv_count (length (pool b sf d0)) b sf (store cs) (map s_phase (sessions cs)))"

text \<open>How far a session has come; the sum over the sessions grows with every step that
  is not a wait.\<close>

fun progress :: "phase \<Rightarrow> nat" where
  "progress Started = 0"
| "progress (Locked t) = 1"
| "progress (Written t) = 2"
| "progress (Committed t) = 3"
| "progress (Finished r) = 4"

text \<open>Every ticket that a session has committed or returned was in the pool at the start.\<close>

definition inv_origin :: "db \<Rightarrow> string \<Rightarrow> string option \<Rightarrow> system \<Rightarrow> bool" where
  "inv_origin d0 b sf cs =
     (\<forall>s \<in> set (sessions cs). \<forall>a. served_of (s_phase s) = Some a \<longrightarrow>
        a \<in> ticket_id ` set (pool b sf d0))"

definition total_progress :: "system \<Rightarrow> nat" where
  "total_progress cs = sum_list (map (\<lambda>s. progress (s_phase s)) (sessions cs))"

text \<open>The ids of the tickets that sessions have committed or returned, in the order of
  the sessions.\<close>

definition committed_ids :: "phase list \<Rightarrow> string list" where
  "committed_ids ps = concat (map (\<lambda>p. case served_of p of None \<Rightarrow> [] | Some a \<Rightarrow> [a]) ps)"

text \<open>Five dispatch requests at counter \<open>C1\<close> against the example queue of three
  waiting tickets, and a schedule in which requests find the head of the queue locked
  and wait.\<close>

definition example_requests :: "(call_next_env \<times> call_next_request) list" where
  "example_requests = replicate 5 (example_call_env, example_call_request ''C1'')"

definition example_schedule :: "nat list" where
  "example_schedule = [0, 1, 2, 0, 1, 0, 1, 2, 3, 0, 1, 1, 2, 1, 3, 2, 2, 3, 4, 2]"

section \<open>Formatting of ticket numbers\<close>

lemma digit_char_value: "of_char (digit_char n) - 48 = (n mod 10 :: nat)"
proof -
  have "n mod 10 = 0 \<or> n mod 10 = 1 \<or> n mod 10 = 2 \<or> n mod 10 = 3 \<or> n mod 10 = 4 \<or>
        n mod 10 = 5 \<or> n mod 10 = 6 \<or> n mod 10 = 7 \<or> n mod 10 = 8 \<or> n mod 10 = 9"
    by arith
  then show ?thesis unfolding digit_char_def by (elim disjE) simp_all
qed

lemma nat_of_string_snoc: "nat_of_string (s @ [c]) = 10 * nat_of_string s + (of_char c - 48)"
  by (simp add: nat_of_string_def)

lemma nat_of_string_of_nat: "nat_of_string (string_of_nat n) = n"
proof (induction n rule: string_of_nat.induct)
  case (1 n)
  show ?case
  proof (cases "n < 10")
    case True
    then show ?thesis
      by (simp add: string_of_nat.simps [of n] nat_of_string_def digit_char_value)
  next
    case False
    with 1 show ?thesis
      by (simp add: string_of_nat.simps [of n] nat_of_string_snoc digit_char_value)
  qed
qed

lemma nat_of_string_zeros: "nat_of_string (replicate k (CHR ''0'') @ s) = nat_of_string s"
  by (induction k) (simp_all add: nat_of_string_def)

lemma length_string_of_nat: "length (string_of_nat n) \<le> k \<longleftrightarrow> (k \<noteq> 0 \<and> n < 10 ^ k)"
proof (induction n arbitrary: k rule: string_of_nat.induct)
  case (1 n)
  show ?case
  proof (cases "n < 10")
    case True
    have "k \<noteq> 0 \<Longrightarrow> n < 10 ^ k"
    proof -
      assume "k \<noteq> 0"
      then have "(10::nat) ^ 1 \<le> 10 ^ k" by (intro power_increasing) auto
      with True show ?thesis by simp
    qed
    then show ?thesis using True
      by (auto simp add: string_of_nat.simps [of n] Suc_le_eq)
  next
    case False
    show ?thesis
    proof (cases k)
      case 0
      then show ?thesis using False by (simp add: string_of_nat.simps [of n])
    next
      case (Suc j)
      have "length (string_of_nat n) \<le> Suc j \<longleftrightarrow> length (string_of_nat (n div 10)) \<le> j"
        using False by (simp add: string_of_nat.simps [of n])
      also have "\<dots> \<longleftrightarrow> (j \<noteq> 0 \<and> n div 10 < 10 ^ j)"
        using 1 [OF False] .
      also have "\<dots> \<longleftrightarrow> n < 10 ^ Suc j"
      proof (cases "j = 0")
        case True
        then show ?thesis using False by simp
      next
        case False
        have "n div 10 < 10 ^ j \<longleftrightarrow> n < 10 ^ j * 10"
          by (simp add: less_mult_imp_div_less div_less_iff_less_mult)
        then show ?thesis using False by (simp add: mult.commute)
      qed
      finally show ?thesis using Suc by simp
    qed
  qed
qed

lemma padStart_small: "n < 1000 \<Longrightarrow> length (padStart 3 c (string_of_nat n)) = 3"
  using length_string_of_nat [of n 3] by (simp add: padStart_def)

lemma padStart_large: "1000 \<le> n \<Longrightarrow> padStart 3 c (string_of_nat n) = string_of_nat n"
  using length_string_of_nat [of n 3] by (simp add: padStart_def)

lemma padStart_value: "nat_of_string (padStart 3 (CHR ''0'') (string_of_nat n)) = n"
  by (simp add: padStart_def nat_of_string_zeros nat_of_string_of_nat)

section \<open>The creation transaction\<close>

lemma create_transaction_commits:
  assumes "\<not> throws_in create_calls (fault env)"
  shows "create_transaction env req sid bid d =
           Some (insert_ticket
                   (new_ticket env req sid bid
                      (format_ticket_number (service_prefix d sid)
                         (current_number d (sid, bid, today env) + 1)))
                   (update_sequence (sid, bid, today env)
                      (current_number d (sid, bid, today env) + 1)
                      (upsert_sequence (sid, bid, today env) d)),
                 current_number d (sid, bid, today env) + 1,
                 format_ticket_number (service_prefix d sid)
                   (current_number d (sid, bid, today env) + 1))"
proof -
  have "current_number (upsert_sequence (sid, bid, today env) d) (sid, bid, today env)
          = current_number d (sid, bid, today env)"
    by (simp add: current_number_def upsert_sequence_def split: option.splits)
  with assms show ?thesis
    by (simp add: create_transaction_def create_calls_def throws_in_def Let_def split: option.splits)
qed

lemma create_transaction_throws:
  "throws_in create_calls (fault env) \<Longrightarrow> create_transaction env req sid bid d = None"
  by (auto simp add: create_transaction_def create_calls_def throws_in_def Let_def split: option.splits)

lemma tickets_insert_ticket: "tickets (insert_ticket t d) = tickets d @ [t]"
  by (simp add: insert_ticket_def)

lemma tickets_update_sequence: "tickets (update_sequence k n d) = tickets d"
  by (simp add: update_sequence_def split: option.splits)

lemma tickets_upsert_sequence: "tickets (upsert_sequence k d) = tickets d"
  by (simp add: upsert_sequence_def split: option.splits)

text \<open>
  Claim C7. Whenever the creation transaction commits, the sequence value it allocated is
  the stored value plus one, and the ticket number of the inserted row is the service
  prefix, a hyphen, and the decimal digits of that value padded on the left with zeros to
  at least three characters: the digits read back as the value, the padded part has
  exactly three characters below 1000, and from 1000 on the number is written in full.
  The witness also runs the scenario of three tickets for service \<open>A\<close>.
\<close>

theorem ticket_number_format:
  assumes "create_transaction env req sid bid d = Some (d', n, ticketNumber)"
  shows "n = current_number d (sid, bid, today env) + 1 \<and>
         ticketNumber =
           service_prefix d sid @ ''-'' @
             replicate (3 - length (string_of_nat n)) (CHR ''0'') @ string_of_nat n \<and>
         tickets d' = tickets d @ [new_ticket env req sid bid ticketNumber] \<and>
         ticket_number (new_ticket env req sid bid ticketNumber) = ticketNumber \<and>
         nat_of_string (drop (length (service_prefix d sid) + 1) ticketNumber) = n \<and>
         length (drop (length (service_prefix d sid) + 1) ticketNumber)
           = max 3 (length (string_of_nat n)) \<and>
         (if n < 1000
          then length (drop (length (service_prefix d sid) + 1) ticketNumber) = 3
          else ticketNumber = service_prefix d sid @ ''-'' @ string_of_nat n)"
proof -
  have nf: "\<not> throws_in create_calls (fault env)"
    using assms create_transaction_throws [of env req sid bid d] by auto
  note eq = create_transaction_commits [OF nf, of req sid bid d]
  from assms eq have n: "n = current_number d (sid, bid, today env) + 1"
    and tn: "ticketNumber = format_ticket_number (service_prefix d sid) n"
    and d': "d' = insert_ticket (new_ticket env req sid bid ticketNumber)
                   (update_sequence (sid, bid, today env) n
                      (upsert_sequence (sid, bid, today env) d))"
    by auto
  let ?p = "service_prefix d sid"
  let ?num = "drop (length ?p + 1) ticketNumber"
  have dr: "?num = padStart 3 (CHR ''0'') (string_of_nat n)"
    by (simp add: tn format_ticket_number_def)
  have c2: "ticketNumber =
      ?p @ ''-'' @ replicate (3 - length (string_of_nat n)) (CHR ''0'') @ string_of_nat n"
    by (simp add: tn format_ticket_number_def padStart_def)
  have c3: "tickets d' = tickets d @ [new_ticket env req sid bid ticketNumber]"
    by (simp add: d' tickets_insert_ticket tickets_update_sequence tickets_upsert_sequence)
  have c4: "ticket_number (new_ticket env req sid bid ticketNumber) = ticketNumber"
    by (simp add: new_ticket_def)
  have c5: "nat_of_string ?num = n"
    unfolding dr by (rule padStart_value)
  have c6: "length ?num = max 3 (length (string_of_nat n))"
    unfolding dr by (simp add: padStart_def)
  have c7: "if n < 1000 then length ?num = 3
            else ticketNumber = ?p @ ''-'' @ string_of_nat n"
  proof (cases "n < 1000")
    case True
    then show ?thesis unfolding dr by (simp add: padStart_small)
  next
    case False
    then have "padStart 3 (CHR ''0'') (string_of_nat n) = string_of_nat n"
      by (simp add: padStart_large)
    with False show ?thesis by (simp add: tn format_ticket_number_def)
  qed
  from n c2 c3 c4 c5 c6 c7 show ?thesis by (intro conjI)
qed

theorem ticket_number_format_witness:
  "(\<exists>d'. create_transaction (example_env ''u1'' 1 None) (example_create ''A'' 0) ''A'' ''B1''
           example_db = Some (d', 1, ''A-001'') \<and>
         nat_of_string (drop (length (service_prefix example_db ''A'') + 1) ''A-001'') = 1) \<and>
   map ticket_number
     (tickets (fst (run [Create (example_env ''u1'' 1 None) (example_create ''A'' 0),
                         Create (example_env ''u2'' 2 None) (example_create ''A'' 0),
                         Create (example_env ''u3'' 3 None) (example_create ''A'' 0)]
                        example_db)))
     = [''A-001'', ''A-002'', ''A-003'']"
proof -
  let ?r = "create_transaction (example_env ''u1'' 1 None) (example_create ''A'' 0) ''A'' ''B1''
              example_db"
  have "\<not> throws_in create_calls (fault (example_env ''u1'' 1 None))"
    by (simp add: example_env_def throws_in_def)
  then obtain d' n tn where h: "?r = Some (d', n, tn)"
    using create_transaction_commits by blast
  have "fst (snd (the ?r)) = 1" and "snd (snd (the ?r)) = ''A-001''"
    by code_simp+
  with h have h': "?r = Some (d', 1, ''A-001'')"
    by simp
  have "nat_of_string (drop (length (service_prefix example_db ''A'') + 1) ''A-001'') = 1"
    using ticket_number_format [OF h'] by blast
  moreover have "map ticket_number
     (tickets (fst (run [Create (example_env ''u1'' 1 None) (example_create ''A'' 0),
                         Create (example_env ''u2'' 2 None) (example_create ''A'' 0),
                         Create (example_env ''u3'' 3 None) (example_create ''A'' 0)]
                        example_db)))
     = [''A-001'', ''A-002'', ''A-003'']"
    by code_simp
  ultimately show ?thesis using h' by blast
qed

section \<open>Selection of the next ticket\<close>

lemma first_in_order_None: "first_in_order ts = None \<longleftrightarrow> ts = []"
  by (induction ts) (auto split: option.splits)

lemma first_in_order_mem: "first_in_order ts = Some t \<Longrightarrow> t \<in> set ts"
  by (induction ts arbitrary: t) (auto split: option.splits if_splits)

lemma precedes_asym: "precedes a b \<Longrightarrow> \<not> precedes b a"
  by (auto simp add: precedes_def)

lemma precedes_irrefl: "\<not> precedes a a"
  by (simp add: precedes_def)

lemma not_precedes_trans: "\<not> precedes u b \<Longrightarrow> \<not> precedes b a \<Longrightarrow> \<not> precedes u a"
  by (auto simp add: precedes_def)

lemma first_in_order_best:
  "first_in_order ts = Some t \<Longrightarrow> u \<in> set ts \<Longrightarrow> \<not> precedes u t"
proof (induction ts arbitrary: t)
  case Nil
  then show ?case by simp
next
  case (Cons a ts)
  from Cons.prems(2) have u: "u = a \<or> u \<in> set ts" by simp
  show ?case
  proof (cases "first_in_order ts")
    case None
    then have "ts = []" by (simp add: first_in_order_None)
    with Cons.prems None have "t = a" and "u = a" by simp_all
    then show ?thesis by (simp add: precedes_irrefl)
  next
    case (Some b)
    note ih = Cons.IH [OF Some]
    show ?thesis
    proof (cases "precedes b a")
      case True
      with Some Cons.prems(1) have t: "t = b" by simp
      from u show ?thesis
      proof
        assume "u = a"
        then show ?thesis unfolding t using True by (simp add: precedes_asym)
      next
        assume "u \<in> set ts"
        then show ?thesis unfolding t by (rule ih)
      qed
    next
      case False
      with Some Cons.prems(1) have t: "t = a" by simp
      from u show ?thesis
      proof
        assume "u = a"
        then show ?thesis unfolding t by (simp add: precedes_irrefl)
      next
        assume "u \<in> set ts"
        then have "\<not> precedes u b" by (rule ih)
        then show ?thesis unfolding t using False by (rule not_precedes_trans)
      qed
    qed
  qed
qed

lemma select_next_None:
  "select_next d cid sid = None \<longleftrightarrow> filter (eligible d cid sid) (tickets d) = []"
  by (simp add: select_next_def first_in_order_None)

lemma select_next_eligible:
  "select_next d cid sid = Some t \<Longrightarrow> t \<in> set (tickets d) \<and> eligible d cid sid t"
  using first_in_order_mem [of "filter (eligible d cid sid) (tickets d)" t]
  by (simp add: select_next_def)

lemma select_next_best:
  "select_next d cid sid = Some t \<Longrightarrow> u \<in> set (tickets d) \<Longrightarrow> eligible d cid sid u \<Longrightarrow>
     \<not> precedes u t"
  using first_in_order_best [of "filter (eligible d cid sid) (tickets d)" t u]
  by (simp add: select_next_def)

lemma call_next_empty:
  assumes "truthy (cn_counter_id req)" and "cn_fault env = None"
    and "select_next d (string_value (cn_counter_id req)) (cn_service_id req) = None"
  shows "call_next env req d = (d, Response 200 (NoTicket ''No tickets in queue''))"
  using assms by (simp add: call_next_def)

lemma call_next_some:
  assumes "truthy (cn_counter_id req)" and "cn_fault env = None"
    and "select_next d (string_value (cn_counter_id req)) (cn_service_id req) = Some t"
  shows "fst (call_next env req d) =
           update_where_id (ticket_id t)
             (mark_serving (string_value (cn_counter_id req)) (cn_now env)) d"
    and "snd (call_next env req d) \<noteq> Response 200 (NoTicket ''No tickets in queue'')"
  using assms by (simp_all add: call_next_def Let_def split: option.splits)

section \<open>Dispatch on an empty queue\<close>

lemma call_next_no_row:
  assumes "truthy (cn_counter_id req)"
    and "\<not> throws_in empty_queue_calls (cn_fault env)"
    and "select_next d (string_value (cn_counter_id req)) (cn_service_id req) = None"
  shows "call_next env req d = (d, Response 200 (NoTicket ''No tickets in queue''))"
  using assms
  by (simp add: call_next_def empty_queue_calls_def throws_in_def split: option.splits)

text \<open>
  Claim C6. When no waiting ticket matches the branch and service filter and none of the
  calls of the empty path throws, the dispatch leaves the store as it was and answers with
  status 200 and the body \<^verbatim>\<open>{ticket: null, message: 'No tickets in queue'}\<close>, not with an
  error.
\<close>

theorem call_next_queue_empty:
  assumes "truthy (cn_counter_id req)"
    and "\<not> throws_in empty_queue_calls (cn_fault env)"
    and "\<forall>t \<in> set (tickets d).
           \<not> eligible d (string_value (cn_counter_id req)) (cn_service_id req) t"
  shows "call_next env req d = (d, Response 200 (NoTicket ''No tickets in queue''))"
proof -
  have "filter (eligible d (string_value (cn_counter_id req)) (cn_service_id req)) (tickets d)
          = []"
    using assms(3) by (simp add: filter_empty_conv)
  then have "select_next d (string_value (cn_counter_id req)) (cn_service_id req) = None"
    by (simp add: select_next_None)
  with assms(1,2) show ?thesis by (rule call_next_no_row)
qed

theorem call_next_queue_empty_witness:
  "truthy (cn_counter_id (example_call_request ''C1'')) \<and>
   \<not> throws_in empty_queue_calls (cn_fault example_call_env) \<and>
   tickets example_db = [] \<and>
   call_next example_call_env (example_call_request ''C1'') example_db
     = (example_db, Response 200 (NoTicket ''No tickets in queue''))"
proof -
  have h1: "truthy (cn_counter_id (example_call_request ''C1''))"
    by (simp add: example_call_request_def truthy_def)
  have h2: "\<not> throws_in empty_queue_calls (cn_fault example_call_env)"
    by (simp add: example_call_env_def throws_in_def)
  have h3: "\<forall>t \<in> set (tickets example_db).
      \<not> eligible example_db (string_value (cn_counter_id (example_call_request ''C1'')))
          (cn_service_id (example_call_request ''C1'')) t"
    by (simp add: example_db_def)
  have "tickets example_db = []"
    by (simp add: example_db_def)
  with h1 h2 call_next_queue_empty [OF h1 h2 h3] show ?thesis by simp
qed

text \<open>
  Claim C10. A dispatch whose \<^verbatim>\<open>counter_id\<close> is given but names no row of \<^verbatim>\<open>counters\<close>
  is not answered with a not-found error: the branch subquery yields no branch, no ticket
  matches, and the answer is the one of an empty queue, with the store unchanged.
\<close>

theorem call_next_unknown_counter:
  assumes "truthy (cn_counter_id req)"
    and "\<not> throws_in empty_queue_calls (cn_fault env)"
    and "counters d (string_value (cn_counter_id req)) = None"
  shows "select_next d (string_value (cn_counter_id req)) (cn_service_id req) = None \<and>
         call_next env req d = (d, Response 200 (NoTicket ''No tickets in queue''))"
proof -
  have "filter (eligible d (string_value (cn_counter_id req)) (cn_service_id req)) (tickets d)
          = []"
    using assms(3) by (simp add: filter_empty_conv eligible_def)
  then have n: "select_next d (string_value (cn_counter_id req)) (cn_service_id req) = None"
    by (simp add: select_next_None)
  with assms(1,2) have "call_next env req d = (d, Response 200 (NoTicket ''No tickets in queue''))"
    by (rule call_next_no_row)
  with n show ?thesis by simp
qed

theorem call_next_unknown_counter_witness:
  "truthy (cn_counter_id (example_call_request ''C9'')) \<and>
   \<not> throws_in empty_queue_calls (cn_fault example_call_env) \<and>
   counters example_queue (string_value (cn_counter_id (example_call_request ''C9''))) = None \<and>
   length (tickets example_queue) = 3 \<and>
   call_next example_call_env (example_call_request ''C9'') example_queue
     = (example_queue, Response 200 (NoTicket ''No tickets in queue''))"
proof -
  have h1: "truthy (cn_counter_id (example_call_request ''C9''))"
    by (simp add: example_call_request_def truthy_def)
  have h2: "\<not> throws_in empty_queue_calls (cn_fault example_call_env)"
    by (simp add: example_call_env_def throws_in_def)
  have h3: "counters example_queue (string_value (cn_counter_id (example_call_request ''C9'')))
              = None"
    by (simp add: example_queue_def example_db_def example_call_request_def string_value_def)
  have "length (tickets example_queue) = 3"
    by (simp add: example_queue_def)
  with h1 h2 h3 call_next_unknown_counter [OF h1 h2 h3] show ?thesis by simp
qed

section \<open>Dispatch of a waiting ticket\<close>

lemma call_next_response_cases:
  assumes "call_next env req d = (d', Response 200 (Ticket (Some r)))"
  obtains t where "truthy (cn_counter_id req)"
    and "select_next d (string_value (cn_counter_id req)) (cn_service_id req) = Some t"
    and "d' = update_where_id (ticket_id t)
                (mark_serving (string_value (cn_counter_id req)) (cn_now env)) d"
    and "fetch_ticket d' (ticket_id t) = Some r"
proof -
  from assms have c: "truthy (cn_counter_id req)"
    by (auto simp add: call_next_def split: if_splits)
  show thesis
  proof (cases "select_next d (string_value (cn_counter_id req)) (cn_service_id req)")
    case None
    with assms c show ?thesis
      by (auto simp add: call_next_def Let_def split: if_splits)
  next
    case (Some t)
    with assms c have
      "d' = update_where_id (ticket_id t)
                (mark_serving (string_value (cn_counter_id req)) (cn_now env)) d"
      by (auto simp add: call_next_def Let_def split: if_splits option.splits)
    moreover from this Some assms c have "fetch_ticket d' (ticket_id t) = Some r"
      by (auto simp add: call_next_def Let_def split: if_splits option.splits)
    ultimately show ?thesis using c Some by (rule_tac that)
  qed
qed

lemma find_update_distinct:
  assumes "distinct (map ticket_id ts)" and "t \<in> set ts"
    and "\<And>u. ticket_id (f u) = ticket_id u"
  shows "find (\<lambda>u. ticket_id u = ticket_id t)
           (map (\<lambda>u. if ticket_id u = ticket_id t then f u else u) ts) = Some (f t)"
  using assms(1,2)
proof (induction ts)
  case Nil
  then show ?case by simp
next
  case (Cons a ts)
  show ?case
  proof (cases "a = t")
    case True
    then show ?thesis by (simp add: assms(3))
  next
    case False
    with Cons.prems have mem: "t \<in> set ts" by simp
    then have "ticket_id t \<in> ticket_id ` set ts" by (rule imageI)
    with Cons.prems(1) have "ticket_id a \<noteq> ticket_id t" by auto
    moreover from Cons.prems(1) have "distinct (map ticket_id ts)" by simp
    ultimately show ?thesis using Cons.IH mem by simp
  qed
qed

lemma ticket_id_mark_serving: "ticket_id (mark_serving cid now t) = ticket_id t"
  by (simp add: mark_serving_def)

lemma fetch_after_mark:
  assumes "distinct (map ticket_id (tickets d))" and "t \<in> set (tickets d)"
  shows "fetch_ticket (update_where_id (ticket_id t) (mark_serving cid now) d) (ticket_id t)
           = Some (mark_serving cid now t)"
  using find_update_distinct [OF assms, of "mark_serving cid now"]
  by (simp add: fetch_ticket_def update_where_id_def ticket_id_mark_serving)

lemma find_update_some:
  assumes "t \<in> set ts"
  shows "\<exists>r. find (\<lambda>u. ticket_id u = ticket_id t)
           (map (\<lambda>u. if ticket_id u = ticket_id t then mark_serving cid now u else u) ts)
          = Some r"
proof -
  have "mark_serving cid now t \<in>
          set (map (\<lambda>u. if ticket_id u = ticket_id t then mark_serving cid now u else u) ts)"
    using assms by force
  then have "\<exists>x \<in> set (map (\<lambda>u. if ticket_id u = ticket_id t then mark_serving cid now u else u) ts).
                ticket_id x = ticket_id t"
    using ticket_id_mark_serving by blast
  then show ?thesis
    by (cases "find (\<lambda>u. ticket_id u = ticket_id t)
           (map (\<lambda>u. if ticket_id u = ticket_id t then mark_serving cid now u else u) ts)")
       (auto simp add: find_None_iff)
qed

lemma call_next_serves:
  assumes "truthy (cn_counter_id req)" and "cn_fault env = None"
    and "select_next d (string_value (cn_counter_id req)) (cn_service_id req) = Some t"
  shows "\<exists>r. call_next env req d =
           (update_where_id (ticket_id t)
              (mark_serving (string_value (cn_counter_id req)) (cn_now env)) d,
            Response 200 (Ticket (Some r)))"
proof -
  from assms(3) have "t \<in> set (tickets d)" by (simp add: select_next_eligible)
  then obtain r where
    "fetch_ticket (update_where_id (ticket_id t)
        (mark_serving (string_value (cn_counter_id req)) (cn_now env)) d) (ticket_id t) = Some r"
    using find_update_some [of t "tickets d"]
    by (auto simp add: fetch_ticket_def update_where_id_def)
  with assms show ?thesis
    by (simp add: call_next_def Let_def)
qed

text \<open>
  Claim C4. A dispatch that returns a ticket returns the selected row marked as serving;
  the selected row is a waiting ticket of the counter's branch (and of the requested
  service when \<^verbatim>\<open>service_id\<close> is given), and every other such ticket has a lower priority
  level, or the same priority level and a creation time that is not earlier. Whenever such
  a ticket exists and no call throws, a ticket is returned. Ticket ids are unique in the
  table.
\<close>

theorem call_next_priority_order:
  assumes "distinct (map ticket_id (tickets d))"
  shows "(call_next env req d = (d', Response 200 (Ticket (Some r))) \<longrightarrow>
           (\<exists>t \<in> set (tickets d).
              r = mark_serving (string_value (cn_counter_id req)) (cn_now env) t \<and>
              status t = ''waiting'' \<and>
              counters d (string_value (cn_counter_id req)) = Some (Some (branch_id t)) \<and>
              (if truthy (cn_service_id req)
               then service_id t = string_value (cn_service_id req) else True) \<and>
              (\<forall>u \<in> set (tickets d).
                 eligible d (string_value (cn_counter_id req)) (cn_service_id req) u \<longrightarrow>
                   priority_level u < priority_level t \<or>
                   (priority_level u = priority_level t \<and> created_at t \<le> created_at u)))) \<and>
         (truthy (cn_counter_id req) \<and> cn_fault env = None \<and>
          (\<exists>u \<in> set (tickets d).
             eligible d (string_value (cn_counter_id req)) (cn_service_id req) u) \<longrightarrow>
           (\<exists>r. snd (call_next env req d) = Response 200 (Ticket (Some r))))"
proof (intro conjI impI)
  let ?cid = "string_value (cn_counter_id req)"
  assume "call_next env req d = (d', Response 200 (Ticket (Some r)))"
  then obtain t where "truthy (cn_counter_id req)"
    and sel: "select_next d ?cid (cn_service_id req) = Some t"
    and d': "d' = update_where_id (ticket_id t) (mark_serving ?cid (cn_now env)) d"
    and f: "fetch_ticket d' (ticket_id t) = Some r"
    by (rule call_next_response_cases)
  from sel have mem: "t \<in> set (tickets d)" and el: "eligible d ?cid (cn_service_id req) t"
    by (simp_all add: select_next_eligible)
  from f have r: "r = mark_serving ?cid (cn_now env) t"
    unfolding d' using fetch_after_mark [OF assms mem] by simp
  have best: "\<forall>u \<in> set (tickets d). eligible d ?cid (cn_service_id req) u \<longrightarrow>
                   priority_level u < priority_level t \<or>
                   (priority_level u = priority_level t \<and> created_at t \<le> created_at u)"
  proof (intro ballI impI)
    fix u assume "u \<in> set (tickets d)" and "eligible d ?cid (cn_service_id req) u"
    with sel have "\<not> precedes u t" by (rule select_next_best)
    then show "priority_level u < priority_level t \<or>
                   (priority_level u = priority_level t \<and> created_at t \<le> created_at u)"
      by (auto simp add: precedes_def)
  qed
  from el have "status t = ''waiting''"
    and "counters d ?cid = Some (Some (branch_id t))"
    and "if truthy (cn_service_id req)
               then service_id t = string_value (cn_service_id req) else True"
    by (simp_all add: eligible_def)
  with mem r best show "\<exists>t \<in> set (tickets d).
              r = mark_serving ?cid (cn_now env) t \<and>
              status t = ''waiting'' \<and>
              counters d ?cid = Some (Some (branch_id t)) \<and>
              (if truthy (cn_service_id req)
               then service_id t = string_value (cn_service_id req) else True) \<and>
              (\<forall>u \<in> set (tickets d).
                 eligible d ?cid (cn_service_id req) u \<longrightarrow>
                   priority_level u < priority_level t \<or>
                   (priority_level u = priority_level t \<and> created_at t \<le> created_at u))"
    by blast
next
  let ?cid = "string_value (cn_counter_id req)"
  assume a: "truthy (cn_counter_id req) \<and> cn_fault env = None \<and>
          (\<exists>u \<in> set (tickets d). eligible d ?cid (cn_service_id req) u)"
  then have "filter (eligible d ?cid (cn_service_id req)) (tickets d) \<noteq> []"
    by (auto simp add: filter_empty_conv)
  then obtain t where "select_next d ?cid (cn_service_id req) = Some t"
    using select_next_None [of d ?cid "cn_service_id req"] by (cases "select_next d ?cid (cn_service_id req)") auto
  with a show "\<exists>r. snd (call_next env req d) = Response 200 (Ticket (Some r))"
    using call_next_serves [of req env d t] by auto
qed

theorem call_next_priority_order_witness:
  "distinct (map ticket_id (tickets example_queue)) \<and>
   call_next example_call_env (example_call_request ''C1'') example_queue =
     (fst (call_next example_call_env (example_call_request ''C1'') example_queue),
      Response 200 (Ticket (Some
        (mark_serving ''C1'' 10 (example_ticket ''t3'' ''A-003'' 2 3 ''waiting''))))) \<and>
   (\<exists>t \<in> set (tickets example_queue).
      mark_serving ''C1'' 10 (example_ticket ''t3'' ''A-003'' 2 3 ''waiting'') =
        mark_serving ''C1'' 10 t \<and>
      (\<forall>u \<in> set (tickets example_queue).
         eligible example_queue ''C1'' None u \<longrightarrow>
           priority_level u < priority_level t \<or>
           (priority_level u = priority_level t \<and> created_at t \<le> created_at u))) \<and>
   map served_id
     (snd (run [CallNext example_call_env (example_call_request ''C1''),
                CallNext example_call_env (example_call_request ''C1''),
                CallNext example_call_env (example_call_request ''C1''),
                CallNext example_call_env (example_call_request ''C1'')] example_queue))
     = [Some ''t3'', Some ''t1'', Some ''t2'', None]"
proof -
  let ?c = "call_next example_call_env (example_call_request ''C1'') example_queue"
  let ?r = "mark_serving ''C1'' 10 (example_ticket ''t3'' ''A-003'' 2 3 ''waiting'')"
  have h1: "distinct (map ticket_id (tickets example_queue))"
    by (simp add: example_queue_def example_ticket_def)
  have "snd ?c = Response 200 (Ticket (Some ?r))"
    by code_simp
  then have h2: "?c = (fst ?c, Response 200 (Ticket (Some ?r)))"
    by (simp add: prod_eq_iff)
  have sv: "string_value (cn_counter_id (example_call_request ''C1'')) = ''C1''"
    and sid: "cn_service_id (example_call_request ''C1'') = None"
    and now: "cn_now example_call_env = 10"
    by (simp_all add: example_call_request_def example_call_env_def string_value_def)
  have c: "\<exists>t \<in> set (tickets example_queue).
      ?r = mark_serving ''C1'' 10 t \<and>
      (\<forall>u \<in> set (tickets example_queue).
         eligible example_queue ''C1'' None u \<longrightarrow>
           priority_level u < priority_level t \<or>
           (priority_level u = priority_level t \<and> created_at t \<le> created_at u))"
    using call_next_priority_order [OF h1, of example_call_env "example_call_request ''C1''"
        "fst ?c" ?r] h2
    unfolding sv sid now by blast
  have r: "map served_id
     (snd (run [CallNext example_call_env (example_call_request ''C1''),
                CallNext example_call_env (example_call_request ''C1''),
                CallNext example_call_env (example_call_request ''C1''),
                CallNext example_call_env (example_call_request ''C1'')] example_queue))
     = [Some ''t3'', Some ''t1'', Some ''t2'', None]"
    by code_simp
  from h1 h2 c r show ?thesis by blast
qed

section \<open>What the handlers leave unchanged\<close>

lemma fetch_ticket_id: "fetch_ticket d tid = Some r \<Longrightarrow> ticket_id r = tid"
  by (auto simp add: fetch_ticket_def find_Some_iff)

lemma columns_kept_mark_serving:
  "columns_kept_by_dispatch (mark_serving cid now t) = columns_kept_by_dispatch t"
  by (simp add: columns_kept_by_dispatch_def mark_serving_def)

lemma update_where_id_tables:
  "services (update_where_id tid f d) = services d"
  "counters (update_where_id tid f d) = counters d"
  "ticket_sequences (update_where_id tid f d) = ticket_sequences d"
  "tickets (update_where_id tid f d) = map (\<lambda>t. if ticket_id t = tid then f t else t) (tickets d)"
  by (simp_all add: update_where_id_def)

lemma creation_columns_update:
  assumes "\<And>t. creation_columns (f t) = creation_columns t"
  shows "map creation_columns (tickets (update_where_id tid f d)) = map creation_columns (tickets d)"
  by (simp add: update_where_id_tables assms)

lemma creation_columns_mark_serving:
  "creation_columns (mark_serving cid now t) = creation_columns t"
  by (simp add: creation_columns_def mark_serving_def)

lemma creation_columns_cancel_row: "creation_columns (cancel_row now t) = creation_columns t"
  by (simp add: creation_columns_def cancel_row_def)

lemma creation_columns_patch_row: "creation_columns (patch_row env req t) = creation_columns t"
  by (simp add: creation_columns_def patch_row_def patch_status_def Let_def)

lemma create_ticket_tickets:
  "tickets (fst (create_ticket env req d)) = tickets d \<or>
   (\<exists>t. tickets (fst (create_ticket env req d)) = tickets d @ [t])"
proof (cases "throws_in create_calls (fault env)")
  case True
  then show ?thesis by (simp add: create_ticket_def create_transaction_throws)
next
  case False
  then show ?thesis
    by (simp add: create_ticket_def create_transaction_commits tickets_insert_ticket
        tickets_update_sequence tickets_upsert_sequence)
qed

lemma call_next_tickets:
  "tickets (fst (call_next env req d)) = tickets d \<or>
   (\<exists>tid cid. tickets (fst (call_next env req d)) =
      tickets (update_where_id tid (mark_serving cid (cn_now env)) d))"
  by (auto simp add: call_next_def Let_def split: option.splits)

lemma patch_ticket_tickets:
  "tickets (fst (patch_ticket env req d)) = tickets d \<or>
   tickets (fst (patch_ticket env req d)) = tickets (update_where_id (p_id req) (patch_row env req) d)"
  by (auto simp add: patch_ticket_def Let_def split: option.splits)

lemma delete_ticket_tickets:
  "tickets (fst (delete_ticket env tid d)) = tickets d \<or>
   tickets (fst (delete_ticket env tid d)) = tickets (update_where_id tid (cancel_row (del_now env)) d)"
  by (auto simp add: delete_ticket_def split: option.splits)

lemma handle_creation_columns:
  "\<exists>new. map creation_columns (tickets (fst (handle r d))) = map creation_columns (tickets d) @ new"
proof (cases r)
  case (Create env req)
  with create_ticket_tickets [of env req d] show ?thesis by auto
next
  case (CallNext env req)
  with call_next_tickets [of env req d] show ?thesis
    by (auto simp add: creation_columns_update creation_columns_mark_serving)
next
  case (Patch env req)
  with patch_ticket_tickets [of env req d] show ?thesis
    by (auto simp add: creation_columns_update creation_columns_patch_row)
next
  case (Delete env tid)
  with delete_ticket_tickets [of env tid d] show ?thesis
    by (auto simp add: creation_columns_update creation_columns_cancel_row)
qed

lemma run_creation_columns:
  "\<exists>new. map creation_columns (tickets (fst (run rs d))) = map creation_columns (tickets d) @ new"
proof (induction rs arbitrary: d)
  case Nil
  then show ?case by simp
next
  case (Cons r rs)
  obtain n1 where 1: "map creation_columns (tickets (fst (handle r d)))
                        = map creation_columns (tickets d) @ n1"
    using handle_creation_columns by blast
  obtain n2 where 2: "map creation_columns (tickets (fst (run rs (fst (handle r d)))))
                        = map creation_columns (tickets (fst (handle r d))) @ n2"
    using Cons.IH by blast
  have "fst (run (r # rs) d) = fst (run rs (fst (handle r d)))"
    by (simp split: prod.splits)
  with 1 2 show ?case by simp
qed

text \<open>
  Claim C8. A dispatch that returns a ticket changes no table but \<^verbatim>\<open>tickets\<close>, keeps the
  number and order of its rows, leaves every row with another id as it was, and in the
  row of the returned id sets \<^verbatim>\<open>status\<close> to serving, \<^verbatim>\<open>counter_id\<close> to the given counter and
  \<^verbatim>\<open>called_at\<close> and \<^verbatim>\<open>started_at\<close> to now, all other columns keeping their values. Over any
  history of requests, the id, ticket number, service and branch of the rows present at the
  start stay what they were.
\<close>

theorem call_next_frame:
  "(call_next env req d = (d', Response 200 (Ticket (Some r))) \<longrightarrow>
      services d' = services d \<and> counters d' = counters d \<and>
      ticket_sequences d' = ticket_sequences d \<and>
      length (tickets d') = length (tickets d) \<and>
      (\<forall>i < length (tickets d).
         columns_kept_by_dispatch (tickets d' ! i) = columns_kept_by_dispatch (tickets d ! i) \<and>
         (if ticket_id (tickets d ! i) = ticket_id r
          then status (tickets d' ! i) = ''serving'' \<and>
               counter_id (tickets d' ! i) = Some (string_value (cn_counter_id req)) \<and>
               called_at (tickets d' ! i) = Some (cn_now env) \<and>
               started_at (tickets d' ! i) = Some (cn_now env)
          else tickets d' ! i = tickets d ! i))) \<and>
   take (length (tickets d)) (map creation_columns (tickets (fst (run rs d))))
     = map creation_columns (tickets d)"
proof (intro conjI impI)
  assume "call_next env req d = (d', Response 200 (Ticket (Some r)))"
  then obtain t where "truthy (cn_counter_id req)"
    and "select_next d (string_value (cn_counter_id req)) (cn_service_id req) = Some t"
    and d': "d' = update_where_id (ticket_id t)
               (mark_serving (string_value (cn_counter_id req)) (cn_now env)) d"
    and f: "fetch_ticket d' (ticket_id t) = Some r"
    by (rule call_next_response_cases)
  from f have id: "ticket_id t = ticket_id r" by (simp add: fetch_ticket_id)
  show "services d' = services d" "counters d' = counters d"
    "ticket_sequences d' = ticket_sequences d" "length (tickets d') = length (tickets d)"
    by (simp_all add: d' update_where_id_tables)
  show "\<forall>i < length (tickets d).
         columns_kept_by_dispatch (tickets d' ! i) = columns_kept_by_dispatch (tickets d ! i) \<and>
         (if ticket_id (tickets d ! i) = ticket_id r
          then status (tickets d' ! i) = ''serving'' \<and>
               counter_id (tickets d' ! i) = Some (string_value (cn_counter_id req)) \<and>
               called_at (tickets d' ! i) = Some (cn_now env) \<and>
               started_at (tickets d' ! i) = Some (cn_now env)
          else tickets d' ! i = tickets d ! i)"
    by (simp add: d' id update_where_id_tables columns_kept_mark_serving)
       (simp add: mark_serving_def)
next
  obtain new where "map creation_columns (tickets (fst (run rs d)))
                      = map creation_columns (tickets d) @ new"
    using run_creation_columns by blast
  then show "take (length (tickets d)) (map creation_columns (tickets (fst (run rs d))))
     = map creation_columns (tickets d)"
    by simp
qed

theorem call_next_frame_witness:
  "call_next example_call_env (example_call_request ''C1'') example_queue =
     (fst (call_next example_call_env (example_call_request ''C1'') example_queue),
      Response 200 (Ticket (Some
        (mark_serving ''C1'' 10 (example_ticket ''t3'' ''A-003'' 2 3 ''waiting''))))) \<and>
   tickets (fst (call_next example_call_env (example_call_request ''C1'') example_queue)) =
     [example_ticket ''t1'' ''A-001'' 0 1 ''waiting'',
      example_ticket ''t2'' ''A-002'' 0 2 ''waiting'',
      (example_ticket ''t3'' ''A-003'' 2 3 ''waiting'')
        \<lparr>status := ''serving'', counter_id := Some ''C1'', called_at := Some 10,
         started_at := Some 10\<rparr>] \<and>
   columns_kept_by_dispatch
     (tickets (fst (call_next example_call_env (example_call_request ''C1'') example_queue)) ! 2)
     = columns_kept_by_dispatch (tickets example_queue ! 2)"
proof -
  let ?c = "call_next example_call_env (example_call_request ''C1'') example_queue"
  let ?r = "mark_serving ''C1'' 10 (example_ticket ''t3'' ''A-003'' 2 3 ''waiting'')"
  have "snd ?c = Response 200 (Ticket (Some ?r))"
    by code_simp
  then have h: "?c = (fst ?c, Response 200 (Ticket (Some ?r)))"
    by (simp add: prod_eq_iff)
  have t: "tickets (fst ?c) =
     [example_ticket ''t1'' ''A-001'' 0 1 ''waiting'',
      example_ticket ''t2'' ''A-002'' 0 2 ''waiting'',
      (example_ticket ''t3'' ''A-003'' 2 3 ''waiting'')
        \<lparr>status := ''serving'', counter_id := Some ''C1'', called_at := Some 10,
         started_at := Some 10\<rparr>]"
    by code_simp
  have "\<forall>i < length (tickets example_queue).
      columns_kept_by_dispatch (tickets (fst ?c) ! i)
      = columns_kept_by_dispatch (tickets example_queue ! i)"
    using call_next_frame [of example_call_env "example_call_request ''C1''" example_queue
        "fst ?c" ?r "[]"] h
    by blast
  moreover have "2 < length (tickets example_queue)"
    by (simp add: example_queue_def)
  ultimately have "columns_kept_by_dispatch (tickets (fst ?c) ! 2)
      = columns_kept_by_dispatch (tickets example_queue ! 2)"
    by blast
  with h t show ?thesis by blast
qed

section \<open>Outcomes of the creation handler\<close>

lemma create_ticket_committed:
  assumes "truthy (req_service_id req)" and "truthy (req_branch_id req)"
    and "\<not> throws_in create_calls (fault env)"
  shows "fst (create_ticket env req d) =
           insert_ticket
             (new_ticket env req (string_value (req_service_id req))
                (string_value (req_branch_id req))
                (format_ticket_number
                   (service_prefix d (string_value (req_service_id req)))
                   (current_number d
                      (string_value (req_service_id req), string_value (req_branch_id req),
                       today env) + 1)))
             (update_sequence
                (string_value (req_service_id req), string_value (req_branch_id req), today env)
                (current_number d
                   (string_value (req_service_id req), string_value (req_branch_id req),
                    today env) + 1)
                (upsert_sequence
                   (string_value (req_service_id req), string_value (req_branch_id req),
                    today env) d))"
    and "snd (create_ticket env req d) =
           (if fault env = Some FetchTicket
            then Response 500 (Error ''Failed to create ticket'')
            else Response 201 (Ticket (fetch_ticket (fst (create_ticket env req d)) (uuid env))))"
  using assms
  by (simp_all add: create_ticket_def create_transaction_commits)

lemma create_ticket_rolled_back:
  assumes "throws_in create_calls (fault env)"
  shows "create_ticket env req d =
           (d, if truthy (req_service_id req) \<and> truthy (req_branch_id req)
               then Response 500 (Error ''Failed to create ticket'')
               else Response 400 (Error ''service_id and branch_id are required''))"
  using assms by (simp add: create_ticket_def create_transaction_throws)

lemma create_ticket_rejected:
  assumes "\<not> (truthy (req_service_id req) \<and> truthy (req_branch_id req))"
  shows "create_ticket env req d =
           (d, Response 400 (Error ''service_id and branch_id are required''))"
  using assms by (auto simp add: create_ticket_def)

lemma current_number_after_allocation:
  "current_number (insert_ticket t (update_sequence k n (upsert_sequence k d))) k' =
     (if k' = k then n else current_number d k')"
  by (simp add: current_number_def insert_ticket_def update_sequence_def upsert_sequence_def
      split: option.splits)






text \<open>
  Claim C3, as stated, fails for the last awaited call of the handler: when the re-read
  after the commit throws, the handler answers 500 \<open>Failed to create ticket\<close>, yet the
  sequence of the key has advanced from 0 to 1 and the row \<open>A-001\<close> is in the table.
\<close>

theorem create_ticket_rollback_counterexample:
  "fault (example_env ''u1'' 1 (Some FetchTicket)) = Some FetchTicket \<and>
   snd (create_ticket (example_env ''u1'' 1 (Some FetchTicket)) (example_create ''A'' 0)
          example_db) = Response 500 (Error ''Failed to create ticket'') \<and>
   current_number example_db (''A'', ''B1'', ''2024-01-01'') = 0 \<and>
   current_number
     (fst (create_ticket (example_env ''u1'' 1 (Some FetchTicket)) (example_create ''A'' 0)
             example_db)) (''A'', ''B1'', ''2024-01-01'') = 1 \<and>
   tickets example_db = [] \<and>
   map ticket_number
     (tickets (fst (create_ticket (example_env ''u1'' 1 (Some FetchTicket))
                      (example_create ''A'' 0) example_db))) = [''A-001''] \<and>
   map ticket_number
     (tickets (fst (run [Create (example_env ''u1'' 1 (Some FetchTicket)) (example_create ''A'' 0),
                         Create (example_env ''u2'' 2 None) (example_create ''A'' 0)]
                        example_db))) = [''A-001'', ''A-002''] \<and>
   map ticket_number
     (tickets (fst (run [Create (example_env ''u2'' 2 None) (example_create ''A'' 0)]
                        example_db))) = [''A-001'']"
  by (intro conjI; code_simp)

text \<open>
  Claim C3, amended. When any call of the creation transaction throws, from
  \<^verbatim>\<open>beginTransaction()\<close> to \<^verbatim>\<open>commit()\<close> (the ticket insertion among them), the store is
  left exactly as it was: no sequence value and no ticket row changes, the answer is the
  failure response, and any later request gives what it would have given had the failed
  attempt never happened. When only the re-read after the commit throws, the answer is
  the same failure response and the store is the one of the successful creation.
\<close>

theorem create_ticket_rollback:
  "(throws_in create_calls (fault env) \<longrightarrow>
      fst (create_ticket env req d) = d \<and>
      snd (create_ticket env req d) =
        (if truthy (req_service_id req) \<and> truthy (req_branch_id req)
         then Response 500 (Error ''Failed to create ticket'')
         else Response 400 (Error ''service_id and branch_id are required'')) \<and>
      current_number (fst (create_ticket env req d)) k = current_number d k \<and>
      tickets (fst (create_ticket env req d)) = tickets d \<and>
      handle r (fst (create_ticket env req d)) = handle r d) \<and>
   (fault env = Some FetchTicket \<and> truthy (req_service_id req) \<and> truthy (req_branch_id req) \<longrightarrow>
      snd (create_ticket env req d) = Response 500 (Error ''Failed to create ticket'') \<and>
      fst (create_ticket env req d) = fst (create_ticket (env\<lparr>fault := None\<rparr>) req d))"
proof (intro conjI impI)
  assume t: "throws_in create_calls (fault env)"
  note rb = create_ticket_rolled_back [OF t, of req d]
  show "fst (create_ticket env req d) = d"
    by (simp add: rb)
  then show "current_number (fst (create_ticket env req d)) k = current_number d k"
    and "tickets (fst (create_ticket env req d)) = tickets d"
    and "handle r (fst (create_ticket env req d)) = handle r d"
    by simp_all
  show "snd (create_ticket env req d) =
        (if truthy (req_service_id req) \<and> truthy (req_branch_id req)
         then Response 500 (Error ''Failed to create ticket'')
         else Response 400 (Error ''service_id and branch_id are required''))"
    by (simp add: rb)
next
  assume a: "fault env = Some FetchTicket \<and> truthy (req_service_id req) \<and>
             truthy (req_branch_id req)"
  then have nt: "\<not> throws_in create_calls (fault env)"
    and nt': "\<not> throws_in create_calls (fault (env\<lparr>fault := None\<rparr>))"
    by (simp_all add: throws_in_def create_calls_def)
  from a show "snd (create_ticket env req d) = Response 500 (Error ''Failed to create ticket'')"
    using create_ticket_committed(2) [OF _ _ nt, of req d] by simp
  from a show "fst (create_ticket env req d) = fst (create_ticket (env\<lparr>fault := None\<rparr>) req d)"
    using create_ticket_committed(1) [OF _ _ nt, of req d]
      create_ticket_committed(1) [OF _ _ nt', of req d]
    by (simp add: new_ticket_def)
qed

theorem create_ticket_rollback_witness:
  "throws_in create_calls (fault (example_env ''u1'' 1 (Some InsertTicket))) \<and>
   truthy (req_service_id (example_create ''A'' 0)) \<and>
   truthy (req_branch_id (example_create ''A'' 0)) \<and>
   fst (create_ticket (example_env ''u1'' 1 (Some InsertTicket)) (example_create ''A'' 0)
          example_db) = example_db \<and>
   snd (create_ticket (example_env ''u1'' 1 (Some InsertTicket)) (example_create ''A'' 0)
          example_db) = Response 500 (Error ''Failed to create ticket'') \<and>
   map ticket_number
     (tickets (fst (run [Create (example_env ''u1'' 1 (Some InsertTicket)) (example_create ''A'' 0),
                         Create (example_env ''u2'' 2 None) (example_create ''A'' 0)]
                        example_db))) = [''A-001''] \<and>
   fault (example_env ''u1'' 1 (Some FetchTicket)) = Some FetchTicket \<and>
   fst (create_ticket (example_env ''u1'' 1 (Some FetchTicket)) (example_create ''A'' 0)
          example_db) =
     fst (create_ticket ((example_env ''u1'' 1 (Some FetchTicket))\<lparr>fault := None\<rparr>)
            (example_create ''A'' 0) example_db)"
proof -
  let ?e = "example_env ''u1'' 1 (Some InsertTicket)" and ?r = "example_create ''A'' 0"
  let ?e' = "example_env ''u1'' 1 (Some FetchTicket)"
  have h1: "throws_in create_calls (fault ?e)"
    by (simp add: example_env_def throws_in_def create_calls_def)
  have h2: "truthy (req_service_id ?r)" and h3: "truthy (req_branch_id ?r)"
    by (simp_all add: example_create_def truthy_def)
  have h4: "fault ?e' = Some FetchTicket"
    by (simp add: example_env_def)
  note th = create_ticket_rollback [of ?e ?r example_db _ _]
  have c1: "fst (create_ticket ?e ?r example_db) = example_db"
    using th h1 by blast
  have c2: "snd (create_ticket ?e ?r example_db) = Response 500 (Error ''Failed to create ticket'')"
    using th h1 h2 h3 by simp
  have c3: "map ticket_number
     (tickets (fst (run [Create ?e ?r, Create (example_env ''u2'' 2 None) ?r] example_db)))
       = [''A-001'']"
    by code_simp
  have c4: "fst (create_ticket ?e' ?r example_db) =
     fst (create_ticket (?e'\<lparr>fault := None\<rparr>) ?r example_db)"
    using create_ticket_rollback [of ?e' ?r example_db _ _] h2 h3 h4 by blast
  from h1 h2 h3 c1 c2 c3 h4 c4 show ?thesis by (intro conjI)
qed

section \<open>Terminal tickets\<close>

text \<open>
  Claim C5, as stated, fails for the status patch: it does not look at the current status,
  so a patch with status \<open>waiting\<close> (or \<open>serving\<close>) on a ticket that is \<open>done\<close> is applied.
\<close>

theorem terminal_status_counterexample:
  "map status (tickets example_done) = [''done''] \<and>
   terminal ''done'' \<and>
   map status (tickets (fst (patch_ticket example_patch_env (example_patch ''waiting'')
                               example_done))) = [''waiting''] \<and>
   map status (tickets (fst (patch_ticket example_patch_env (example_patch ''serving'')
                               example_done))) = [''serving''] \<and>
   served_id (snd (patch_ticket example_patch_env (example_patch ''waiting'') example_done))
     = Some ''t1''"
  by (intro conjI; code_simp)

lemma nth_update_where_id:
  "i < length (tickets d) \<Longrightarrow>
     tickets (update_where_id tid f d) ! i =
       (if ticket_id (tickets d ! i) = tid then f (tickets d ! i) else tickets d ! i)"
  by (simp add: update_where_id_def)

lemma status_patch_row:
  "status (patch_row env req t) =
     (if truthy (p_status req) then string_value (p_status req) else status t)"
  by (simp add: patch_row_def patch_status_def Let_def)

lemma call_next_keeps_other_status:
  assumes "distinct (map ticket_id (tickets d))" and "i < length (tickets d)"
    and "status (tickets d ! i) \<noteq> ''waiting''"
  shows "tickets (fst (call_next env req d)) ! i = tickets d ! i"
proof (cases "truthy (cn_counter_id req)")
  case False
  then show ?thesis by (simp add: call_next_def)
next
  case True
  show ?thesis
  proof (cases "select_next d (string_value (cn_counter_id req)) (cn_service_id req)")
    case None
    with True show ?thesis by (simp add: call_next_def Let_def)
  next
    case (Some t)
    then have mem: "t \<in> set (tickets d)" and "status t = ''waiting''"
      using select_next_eligible [of d _ _ t] by (simp_all add: eligible_def)
    with assms(3) have "tickets d ! i \<noteq> t" by auto
    moreover from mem obtain j where "j < length (tickets d)" and "tickets d ! j = t"
      by (auto simp add: in_set_conv_nth)
    ultimately have "ticket_id (tickets d ! i) \<noteq> ticket_id t"
      using assms(1,2) by (metis distinct_conv_nth length_map nth_map)
    then have "tickets (update_where_id (ticket_id t) f d) ! i = tickets d ! i" for f
      using assms(2) by (simp add: nth_update_where_id)
    with True Some show ?thesis
      by (simp add: call_next_def Let_def split: option.splits)
  qed
qed

lemma delete_ticket_status:
  assumes "i < length (tickets d)"
  shows "status (tickets (fst (delete_ticket denv tid d)) ! i) =
           (if ticket_id (tickets d ! i) = tid \<and> del_fault denv \<noteq> Some SelectBranch \<and>
               del_fault denv \<noteq> Some UpdateTicket
            then ''cancelled'' else status (tickets d ! i))"
proof (cases "fetch_ticket d tid")
  case None
  then have "\<forall>t \<in> set (tickets d). ticket_id t \<noteq> tid"
    by (simp add: fetch_ticket_def find_None_iff)
  with assms have "ticket_id (tickets d ! i) \<noteq> tid" by simp
  with None show ?thesis by (simp add: delete_ticket_def)
next
  case (Some t)
  with assms show ?thesis
    by (simp add: delete_ticket_def nth_update_where_id cancel_row_def)
qed

text \<open>
  Claim C5, amended. A ticket whose status is done, cancelled or skipped is left as it is
  by the dispatcher (ticket ids being unique) and by ticket creation; the delete endpoint
  leaves its status as it is or sets it to cancelled (exactly when the id is the given one
  and no call throws), never to waiting or serving; the status patch sets the status it
  is given on the row of the given id whatever the current status is, and leaves the
  status alone otherwise.
\<close>

theorem terminal_status_transitions:
  assumes "distinct (map ticket_id (tickets d))" and "i < length (tickets d)"
    and "terminal (status (tickets d ! i))"
  shows "tickets (fst (call_next cenv creq d)) ! i = tickets d ! i \<and>
         tickets (fst (create_ticket env req d)) ! i = tickets d ! i \<and>
         terminal (status (tickets (fst (delete_ticket denv tid d)) ! i)) \<and>
         status (tickets (fst (delete_ticket denv tid d)) ! i) =
           (if ticket_id (tickets d ! i) = tid \<and> del_fault denv \<noteq> Some SelectBranch \<and>
               del_fault denv \<noteq> Some UpdateTicket
            then ''cancelled'' else status (tickets d ! i)) \<and>
         (status (tickets (fst (delete_ticket denv tid d)) ! i) = status (tickets d ! i) \<or>
          status (tickets (fst (delete_ticket denv tid d)) ! i) = ''cancelled'') \<and>
         status (tickets (fst (patch_ticket penv preq d)) ! i) =
           (if p_id preq = ticket_id (tickets d ! i) \<and> truthy (p_status preq) \<and>
               p_fault penv \<noteq> Some UpdateTicket
            then string_value (p_status preq) else status (tickets d ! i))"
proof (intro conjI)
  from assms(3) have "status (tickets d ! i) \<noteq> ''waiting''"
    by (auto simp add: terminal_def)
  with assms(1,2) show "tickets (fst (call_next cenv creq d)) ! i = tickets d ! i"
    by (rule call_next_keeps_other_status)
  from create_ticket_tickets [of env req d] assms(2)
  show "tickets (fst (create_ticket env req d)) ! i = tickets d ! i"
    by (auto simp add: nth_append)
  note del = delete_ticket_status [OF assms(2), of denv tid]
  show "status (tickets (fst (delete_ticket denv tid d)) ! i) =
           (if ticket_id (tickets d ! i) = tid \<and> del_fault denv \<noteq> Some SelectBranch \<and>
               del_fault denv \<noteq> Some UpdateTicket
            then ''cancelled'' else status (tickets d ! i))"
    by (rule del)
  show "status (tickets (fst (delete_ticket denv tid d)) ! i) = status (tickets d ! i) \<or>
        status (tickets (fst (delete_ticket denv tid d)) ! i) = ''cancelled''"
    unfolding del by simp
  show "terminal (status (tickets (fst (delete_ticket denv tid d)) ! i))"
    unfolding del using assms(3) by (simp add: terminal_def)
  show "status (tickets (fst (patch_ticket penv preq d)) ! i) =
           (if p_id preq = ticket_id (tickets d ! i) \<and> truthy (p_status preq) \<and>
               p_fault penv \<noteq> Some UpdateTicket
            then string_value (p_status preq) else status (tickets d ! i))"
    using assms(2)
    by (auto simp add: patch_ticket_def Let_def nth_update_where_id status_patch_row
        split: option.splits)
qed

theorem terminal_status_transitions_witness:
  "distinct (map ticket_id (tickets example_done)) \<and>
   0 < length (tickets example_done) \<and>
   terminal (status (tickets example_done ! 0)) \<and>
   tickets (fst (call_next example_call_env (example_call_request ''C1'') example_done)) ! 0
     = tickets example_done ! 0 \<and>
   terminal (status (tickets (fst (delete_ticket \<lparr>del_now = 30, del_fault = None\<rparr> ''t1''
                                      example_done)) ! 0)) \<and>
   status (tickets (fst (delete_ticket \<lparr>del_now = 30, del_fault = None\<rparr> ''t1''
                            example_done)) ! 0) = ''cancelled'' \<and>
   status (tickets (fst (patch_ticket example_patch_env (example_patch ''skipped'')
                            example_done)) ! 0) = ''skipped''"
proof -
  have h1: "distinct (map ticket_id (tickets example_done))"
    and h2: "0 < length (tickets example_done)"
    and h3: "terminal (status (tickets example_done ! 0))"
    by (simp_all add: example_done_def example_ticket_def terminal_def)
  note th = terminal_status_transitions [OF h1 h2 h3,
      of example_call_env "example_call_request ''C1''" _ _
         "\<lparr>del_now = 30, del_fault = None\<rparr>" "''t1''"
         example_patch_env "example_patch ''skipped''"]
  have c1: "tickets (fst (call_next example_call_env (example_call_request ''C1'')
                        example_done)) ! 0 = tickets example_done ! 0"
    using th by blast
  have c2: "terminal (status (tickets (fst (delete_ticket \<lparr>del_now = 30, del_fault = None\<rparr>
                                      ''t1'' example_done)) ! 0))"
    using th by blast
  have c3: "status (tickets (fst (delete_ticket \<lparr>del_now = 30, del_fault = None\<rparr> ''t1''
                            example_done)) ! 0) = ''cancelled''"
    by code_simp
  have c4: "status (tickets (fst (patch_ticket example_patch_env (example_patch ''skipped'')
                            example_done)) ! 0) = ''skipped''"
    by code_simp
  from h1 h2 h3 c1 c2 c3 c4 show ?thesis by (intro conjI)
qed

section \<open>The sequence counter\<close>

lemma update_where_id_sequences:
  "current_number (update_where_id tid f d) k = current_number d k"
  by (simp add: current_number_def update_where_id_def)

lemma call_next_sequences: "current_number (fst (call_next env req d)) k = current_number d k"
  by (auto simp add: call_next_def Let_def update_where_id_sequences split: option.splits)

lemma patch_ticket_sequences: "current_number (fst (patch_ticket env req d)) k = current_number d k"
  by (auto simp add: patch_ticket_def Let_def update_where_id_sequences split: option.splits)

lemma delete_ticket_sequences: "current_number (fst (delete_ticket env tid d)) k = current_number d k"
  by (auto simp add: delete_ticket_def update_where_id_sequences split: option.splits)

lemma allocated_by_cases:
  "allocated_by r d k = [] \<and> current_number (fst (handle r d)) k = current_number d k \<or>
   allocated_by r d k = [current_number d k + 1] \<and>
     current_number (fst (handle r d)) k = current_number d k + 1"
proof (cases r)
  case (Create env req)
  show ?thesis
  proof (cases "truthy (req_service_id req) \<and> truthy (req_branch_id req)")
    case False
    then show ?thesis
      using create_ticket_rejected [of req env d] by (auto simp add: Create)
  next
    case valid: True
    show ?thesis
    proof (cases "throws_in create_calls (fault env)")
      case True
      then show ?thesis
        by (simp add: Create create_ticket_rolled_back create_transaction_throws)
    next
      case False
      with valid show ?thesis
        by (simp add: Create create_ticket_committed(1) create_transaction_commits
            current_number_after_allocation)
    qed
  qed
next
  case (CallNext env req)
  then show ?thesis by (simp add: call_next_sequences)
next
  case (Patch env req)
  then show ?thesis by (simp add: patch_ticket_sequences)
next
  case (Delete env tid)
  then show ?thesis by (simp add: delete_ticket_sequences)
qed

lemma fst_run_Cons: "fst (run (r # rs) d) = fst (run rs (fst (handle r d)))"
  by (simp split: prod.splits)

lemma allocated_consecutive:
  "allocated rs d k =
     [current_number d k + 1 ..< current_number d k + 1 + length (allocated rs d k)] \<and>
   current_number (fst (run rs d)) k = current_number d k + length (allocated rs d k)"
proof (induction rs arbitrary: d)
  case Nil
  show ?case by simp
next
  case (Cons r rs)
  let ?d1 = "fst (handle r d)"
  let ?c = "current_number d k"
  let ?n = "length (allocated rs ?d1 k)"
  note ih = Cons.IH [of ?d1]
  from allocated_by_cases [of r d k] show ?case
  proof
    assume a: "allocated_by r d k = [] \<and> current_number ?d1 k = ?c"
    then have e: "allocated (r # rs) d k = allocated rs ?d1 k"
      and c: "current_number ?d1 k = ?c"
      by simp_all
    show ?thesis unfolding e fst_run_Cons using ih [unfolded c] .
  next
    assume a: "allocated_by r d k = [?c + 1] \<and> current_number ?d1 k = ?c + 1"
    then have e: "allocated (r # rs) d k = (?c + 1) # allocated rs ?d1 k"
      and c: "current_number ?d1 k = ?c + 1"
      by simp_all
    from ih [unfolded c] have 1: "allocated rs ?d1 k = [?c + 1 + 1 ..< ?c + 1 + 1 + ?n]"
      and 2: "current_number (fst (run rs ?d1)) k = ?c + 1 + ?n"
      by blast+
    have u: "[?c + 1 ..< ?c + 1 + Suc ?n] = (?c + 1) # [?c + 1 + 1 ..< ?c + 1 + 1 + ?n]"
      by (simp add: upt_conv_Cons del: upt_Suc)
    have 3: "(?c + 1) # allocated rs ?d1 k = [?c + 1 ..< ?c + 1 + Suc ?n]"
      unfolding u using 1 by (rule arg_cong)
    have 4: "current_number (fst (run rs ?d1)) k = ?c + Suc ?n"
      using 2 by simp
    show ?thesis unfolding e fst_run_Cons length_Cons using 3 4 by (rule conjI)
  qed
qed

lemma current_number_absent: "ticket_sequences d k = None \<Longrightarrow> current_number d k = 0"
  by (simp add: current_number_def)

lemma ticket_sequences_after_allocation:
  "ticket_sequences (insert_ticket t (update_sequence k n (upsert_sequence k d)))
     = (ticket_sequences d)(k \<mapsto> n)"
  by (auto simp add: insert_ticket_def update_sequence_def upsert_sequence_def
      split: option.splits)

text \<open>
  Claim C1. A key without a sequence row counts as 0. A creation transaction that commits
  allocates the stored value plus one, stores it for its key, leaves every other key
  alone, and numbers the inserted ticket with it. No request of a history lowers the value
  of any key. The values allocated for a key over a history are consecutive, starting one
  above the value at the start; for a key without a row at the start they are
  \<open>1, 2, \<dots>, N\<close>, distinct and without a gap.
\<close>

theorem sequence_numbers_gapless:
  "(ticket_sequences d k = None \<longrightarrow> current_number d k = 0) \<and>
   (create_transaction env req sid bid d = Some (d', n, ticketNumber) \<longrightarrow>
      n = current_number d (sid, bid, today env) + 1 \<and>
      ticket_sequences d' = (ticket_sequences d)((sid, bid, today env) \<mapsto> n) \<and>
      ticket_number (last (tickets d')) = format_ticket_number (service_prefix d sid) n) \<and>
   current_number d k \<le> current_number (fst (handle r d)) k \<and>
   current_number d k \<le> current_number (fst (run rs d)) k \<and>
   allocated rs d k =
     [current_number d k + 1 ..< current_number d k + 1 + length (allocated rs d k)] \<and>
   current_number (fst (run rs d)) k = current_number d k + length (allocated rs d k) \<and>
   (ticket_sequences d k = None \<longrightarrow>
      allocated rs d k = [1 ..< Suc (length (allocated rs d k))] \<and>
      distinct (allocated rs d k) \<and>
      set (allocated rs d k) = {1 .. length (allocated rs d k)})"
proof (intro conjI impI)
  show "current_number d k = 0" if "ticket_sequences d k = None"
    using that by (rule current_number_absent)
next
  assume a: "create_transaction env req sid bid d = Some (d', n, ticketNumber)"
  then have nf: "\<not> throws_in create_calls (fault env)"
    using create_transaction_throws [of env req sid bid d] by auto
  note eq = create_transaction_commits [OF nf, of req sid bid d]
  from a eq show n: "n = current_number d (sid, bid, today env) + 1"
    by simp
  from a eq have d': "d' = insert_ticket
        (new_ticket env req sid bid (format_ticket_number (service_prefix d sid) n))
        (update_sequence (sid, bid, today env) n (upsert_sequence (sid, bid, today env) d))"
    by auto
  show "ticket_sequences d' = (ticket_sequences d)((sid, bid, today env) \<mapsto> n)"
    unfolding d' by (rule ticket_sequences_after_allocation)
  show "ticket_number (last (tickets d')) = format_ticket_number (service_prefix d sid) n"
    unfolding d' by (simp add: tickets_insert_ticket new_ticket_def)
next
  show "current_number d k \<le> current_number (fst (handle r d)) k"
    using allocated_by_cases [of r d k] by auto
next
  show "current_number d k \<le> current_number (fst (run rs d)) k"
    using allocated_consecutive [of rs d k] by simp
next
  show "allocated rs d k =
     [current_number d k + 1 ..< current_number d k + 1 + length (allocated rs d k)]"
    using allocated_consecutive [of rs d k] by blast
next
  show "current_number (fst (run rs d)) k = current_number d k + length (allocated rs d k)"
    using allocated_consecutive [of rs d k] by blast
next
  assume "ticket_sequences d k = None"
  then have z: "current_number d k = 0" by (rule current_number_absent)
  have "allocated rs d k = [0 + 1 ..< 0 + 1 + length (allocated rs d k)]"
    using allocated_consecutive [of rs d k] unfolding z by blast
  then show e: "allocated rs d k = [1 ..< Suc (length (allocated rs d k))]"
    by simp
  show "distinct (allocated rs d k)"
    by (subst e) (rule distinct_upt)
  show "set (allocated rs d k) = {1 .. length (allocated rs d k)}"
    by (subst e) (simp only: set_upt atLeastLessThanSuc_atLeastAtMost)
qed

theorem sequence_numbers_gapless_witness:
  "ticket_sequences example_db (''A'', ''B1'', ''2024-01-01'') = None \<and>
   allocated example_history example_db (''A'', ''B1'', ''2024-01-01'') = [1, 2, 3] \<and>
   distinct (allocated example_history example_db (''A'', ''B1'', ''2024-01-01'')) \<and>
   current_number (fst (run example_history example_db)) (''A'', ''B1'', ''2024-01-01'') = 3 \<and>
   map ticket_number (tickets (fst (run example_history example_db)))
     = [''A-001'', ''TKT-001'', ''A-002'', ''A-003'']"
proof -
  let ?k = "(''A'', ''B1'', ''2024-01-01'')"
  have h: "ticket_sequences example_db ?k = None"
    by (simp add: example_db_def)
  have a: "allocated example_history example_db ?k = [1, 2, 3]"
    by code_simp
  have "distinct (allocated example_history example_db ?k)"
    and "current_number (fst (run example_history example_db)) ?k
           = current_number example_db ?k + length (allocated example_history example_db ?k)"
    using sequence_numbers_gapless [of example_db ?k _ _ _ _ _ _ _ _ example_history] h
    by blast+
  then have d: "distinct (allocated example_history example_db ?k)"
    and c: "current_number (fst (run example_history example_db)) ?k = 3"
    by (simp_all add: a current_number_absent [OF h])
  have t: "map ticket_number (tickets (fst (run example_history example_db)))
     = [''A-001'', ''TKT-001'', ''A-002'', ''A-003'']"
    by code_simp
  from h a d c t show ?thesis by (intro conjI)
qed

section \<open>Steps of a session\<close>

lemma set_phase_simps:
  "store (set_phase i p cs) = store cs"
  "length (sessions (set_phase i p cs)) = length (sessions cs)"
  "i < length (sessions cs) \<Longrightarrow>
     map s_phase (sessions (set_phase i p cs)) = (map s_phase (sessions cs))[i := p]"
  "s \<in> set (sessions (set_phase i p cs)) \<Longrightarrow>
     \<exists>s' \<in> set (sessions cs). s_env s = s_env s' \<and> s_req s = s_req s'"
proof -
  show "store (set_phase i p cs) = store cs"
    and "length (sessions (set_phase i p cs)) = length (sessions cs)"
    by (simp_all add: set_phase_def)
  show "map s_phase (sessions (set_phase i p cs)) = (map s_phase (sessions cs))[i := p]"
    if "i < length (sessions cs)"
    using that by (simp add: set_phase_def map_update)
  show "\<exists>s' \<in> set (sessions cs). s_env s = s_env s' \<and> s_req s = s_req s'"
    if "s \<in> set (sessions (set_phase i p cs))"
  proof -
    from that obtain j where j: "j < length (sessions cs)"
      and s: "s = (sessions cs)[i := (sessions cs ! i)\<lparr>s_phase := p\<rparr>] ! j"
      by (auto simp add: set_phase_def in_set_conv_nth)
    show ?thesis
    proof (cases "j = i")
      case True
      with j s have "s = (sessions cs ! i)\<lparr>s_phase := p\<rparr>" by simp
      with j True show ?thesis by (intro bexI [of _ "sessions cs ! i"]) simp_all
    next
      case False
      with j s have "s = sessions cs ! j" by simp
      with j show ?thesis by (intro bexI [of _ "sessions cs ! j"]) simp_all
    qed
  qed
qed

lemma locked_by_other_iff:
  "locked_by_other i tid cs \<longleftrightarrow>
     (\<exists>j < length (sessions cs). j \<noteq> i \<and>
        (\<exists>t. row_of (s_phase (sessions cs ! j)) = Some t \<and> ticket_id t = tid))"
proof -
  have "holds_lock s tid \<longleftrightarrow> (\<exists>t. row_of (s_phase s) = Some t \<and> ticket_id t = tid)" for s
    by (cases "s_phase s") (simp_all add: holds_lock_def)
  then show ?thesis
    by (auto simp add: locked_by_other_def)
qed

lemma eligible_in_pool:
  "counters d cid = Some (Some b) \<Longrightarrow> eligible d cid sf t = in_pool b sf t"
  by (auto simp add: eligible_def in_pool_def)

lemma select_next_pool:
  assumes "counters d cid = Some (Some b)"
  shows "select_next d cid sf = first_in_order (pool b sf d)"
proof -
  have "eligible d cid sf = in_pool b sf"
    using assms by (auto simp add: fun_eq_iff eligible_in_pool)
  then show ?thesis by (simp add: select_next_def pool_def)
qed

text \<open>The step of a session whose request belongs to the pool.\<close>

lemma step_cases:
  assumes "i < length (sessions cs)"
    and "pool_request b sf d0 (s_env (sessions cs ! i), s_req (sessions cs ! i))"
    and "step i cs = cs \<Longrightarrow> P"
    and "\<lbrakk>s_phase (sessions cs ! i) = Started;
          select_next (store cs) (string_value (cn_counter_id (s_req (sessions cs ! i)))) sf = None;
          step i cs = set_phase i queue_empty cs\<rbrakk> \<Longrightarrow> P"
    and "\<And>t. \<lbrakk>s_phase (sessions cs ! i) = Started;
          select_next (store cs) (string_value (cn_counter_id (s_req (sessions cs ! i)))) sf = Some t;
          \<not> locked_by_other i (ticket_id t) cs;
          step i cs = set_phase i (Locked t) cs\<rbrakk> \<Longrightarrow> P"
    and "\<And>t. \<lbrakk>s_phase (sessions cs ! i) = Locked t;
          step i cs = set_phase i (Written t) cs\<rbrakk> \<Longrightarrow> P"
    and "\<And>t. \<lbrakk>s_phase (sessions cs ! i) = Written t;
          step i cs = set_phase i (Committed t)
            (cs\<lparr>store := update_where_id (ticket_id t)
               (mark_serving (string_value (cn_counter_id (s_req (sessions cs ! i))))
                  (cn_now (s_env (sessions cs ! i)))) (store cs)\<rparr>)\<rbrakk> \<Longrightarrow> P"
    and "\<And>t r. \<lbrakk>s_phase (sessions cs ! i) = Committed t;
          fetch_ticket (store cs) (ticket_id t) = Some r;
          step i cs = set_phase i (Finished (Response 200 (Ticket (Some r)))) cs\<rbrakk> \<Longrightarrow> P"
    and "\<And>t. \<lbrakk>s_phase (sessions cs ! i) = Committed t;
          fetch_ticket (store cs) (ticket_id t) = None;
          step i cs = set_phase i failed cs\<rbrakk> \<Longrightarrow> P"
  shows P
proof -
  from assms(2) have f: "cn_fault (s_env (sessions cs ! i)) = None"
    and c: "truthy (cn_counter_id (s_req (sessions cs ! i)))"
    and sf: "cn_service_id (s_req (sessions cs ! i)) = sf"
    by (simp_all add: pool_request_def)
  show P
  proof (cases "s_phase (sessions cs ! i)")
    case Started
    show ?thesis
    proof (cases "select_next (store cs)
                    (string_value (cn_counter_id (s_req (sessions cs ! i)))) sf")
      case None
      with Started assms(1) f c sf have "step i cs = set_phase i queue_empty cs"
        by (simp add: step_def Let_def queue_empty_def)
      with Started None show ?thesis by (rule assms(4))
    next
      case (Some t)
      show ?thesis
      proof (cases "locked_by_other i (ticket_id t) cs")
        case True
        with Started Some assms(1) f c sf have "step i cs = cs"
          by (simp add: step_def Let_def)
        then show ?thesis by (rule assms(3))
      next
        case False
        with Started Some assms(1) f c sf have "step i cs = set_phase i (Locked t) cs"
          by (simp add: step_def Let_def)
        with Started Some False show ?thesis by (rule assms(5))
      qed
    qed
  next
    case (Locked t)
    with assms(1) f have "step i cs = set_phase i (Written t) cs"
      by (simp add: step_def Let_def)
    with Locked show ?thesis by (rule assms(6))
  next
    case (Written t)
    with assms(1) f have "step i cs = set_phase i (Committed t)
            (cs\<lparr>store := update_where_id (ticket_id t)
               (mark_serving (string_value (cn_counter_id (s_req (sessions cs ! i))))
                  (cn_now (s_env (sessions cs ! i)))) (store cs)\<rparr>)"
      by (simp add: step_def Let_def)
    with Written show ?thesis by (rule assms(7))
  next
    case (Committed t)
    show ?thesis
    proof (cases "fetch_ticket (store cs) (ticket_id t)")
      case None
      with Committed assms(1) f have "step i cs = set_phase i failed cs"
        by (simp add: step_def Let_def)
      with Committed None show ?thesis by (rule assms(9))
    next
      case (Some r)
      with Committed assms(1) f
      have "step i cs = set_phase i (Finished (Response 200 (Ticket (Some r)))) cs"
        by (simp add: step_def Let_def)
      with Committed Some show ?thesis by (rule assms(8))
    qed
  next
    case (Finished r)
    with assms(1) have "step i cs = cs"
      by (simp add: step_def Let_def)
    then show ?thesis by (rule assms(3))
  qed
qed

section \<open>The invariant of concurrent dispatch\<close>

lemma inv_locks_update:
  assumes inv: "inv_locks b sf d ps" and i: "i < length ps"
    and new: "\<And>t. row_of p = Some t \<Longrightarrow>
       t \<in> set (tickets d) \<and> in_pool b sf t \<and>
       (\<forall>j < length ps. \<forall>t'. j \<noteq> i \<and> row_of (ps ! j) = Some t' \<longrightarrow>
          ticket_id t' \<noteq> ticket_id t)"
  shows "inv_locks b sf d (ps[i := p])"
  unfolding inv_locks_def
proof (intro allI impI)
  fix j t
  assume j: "j < length (ps[i := p])" and r: "row_of (ps[i := p] ! j) = Some t"
  show "t \<in> set (tickets d) \<and> in_pool b sf t \<and>
        (\<forall>j' < length (ps[i := p]). \<forall>t'. j' \<noteq> j \<and> row_of (ps[i := p] ! j') = Some t' \<longrightarrow>
           ticket_id t' \<noteq> ticket_id t)"
  proof (cases "j = i")
    case True
    with r i have rp: "row_of p = Some t" by simp
    note n = new [OF rp]
    have "ticket_id t' \<noteq> ticket_id t"
      if "j' < length (ps[i := p])" and "j' \<noteq> j" and "row_of (ps[i := p] ! j') = Some t'"
      for j' t'
      using that n True by simp
    with n show ?thesis by blast
  next
    case False
    with r j have rj: "row_of (ps ! j) = Some t" and jl: "j < length ps" by simp_all
    from inv jl rj have m: "t \<in> set (tickets d)" and p: "in_pool b sf t"
      and ex: "\<And>j' t'. j' < length ps \<Longrightarrow> j' \<noteq> j \<Longrightarrow> row_of (ps ! j') = Some t' \<Longrightarrow>
                 ticket_id t' \<noteq> ticket_id t"
      unfolding inv_locks_def by blast+
    have "ticket_id t' \<noteq> ticket_id t"
      if a: "j' < length (ps[i := p])" and b: "j' \<noteq> j" and c: "row_of (ps[i := p] ! j') = Some t'"
      for j' t'
    proof (cases "j' = i")
      case True
      with c i have "row_of p = Some t'" by simp
      from new [OF this] jl False rj have "ticket_id t \<noteq> ticket_id t'" by blast
      then show ?thesis by simp
    next
      case False
      with a c have "row_of (ps ! j') = Some t'" and "j' < length ps" by simp_all
      with b show ?thesis using ex by blast
    qed
    with m p show ?thesis by blast
  qed
qed

lemma inv_served_update:
  assumes inv: "inv_served d ps" and i: "i < length ps"
    and new: "\<And>a. served_of p = Some a \<Longrightarrow>
       (\<exists>row \<in> set (tickets d). ticket_id row = a \<and> status row = ''serving'') \<and>
       (\<forall>j < length ps. j \<noteq> i \<longrightarrow> served_of (ps ! j) \<noteq> Some a)"
  shows "inv_served d (ps[i := p])"
  unfolding inv_served_def
proof (intro allI impI)
  fix j a
  assume j: "j < length (ps[i := p])" and s: "served_of (ps[i := p] ! j) = Some a"
  show "(\<exists>row \<in> set (tickets d). ticket_id row = a \<and> status row = ''serving'') \<and>
        (\<forall>j' < length (ps[i := p]). j' \<noteq> j \<longrightarrow> served_of (ps[i := p] ! j') \<noteq> Some a)"
  proof (cases "j = i")
    case True
    with s i have sp: "served_of p = Some a" by simp
    note n = new [OF sp]
    have "served_of (ps[i := p] ! j') \<noteq> Some a"
      if "j' < length (ps[i := p])" and "j' \<noteq> j" for j'
      using that n True by simp
    with n show ?thesis by blast
  next
    case False
    with s j have sj: "served_of (ps ! j) = Some a" and jl: "j < length ps" by simp_all
    from inv jl sj have row: "\<exists>row \<in> set (tickets d). ticket_id row = a \<and> status row = ''serving''"
      and ex: "\<And>j'. j' < length ps \<Longrightarrow> j' \<noteq> j \<Longrightarrow> served_of (ps ! j') \<noteq> Some a"
      unfolding inv_served_def by blast+
    have "served_of (ps[i := p] ! j') \<noteq> Some a"
      if a: "j' < length (ps[i := p])" and b: "j' \<noteq> j" for j'
    proof (cases "j' = i")
      case True
      show ?thesis
      proof
        assume "served_of (ps[i := p] ! j') = Some a"
        with True i have "served_of p = Some a" by simp
        from new [OF this] jl False sj show False by blast
      qed
    next
      case False
      with a b show ?thesis using ex by simp
    qed
    with row show ?thesis by blast
  qed
qed

lemma sum_list_served_mark_update:
  assumes "i < length ps"
  shows "sum_list (map served_mark (ps[i := p])) + served_mark (ps ! i)
           = sum_list (map served_mark ps) + served_mark p"
proof -
  have "sum_list ((map served_mark ps)[i := served_mark p])
          = sum_list (map served_mark ps) + served_mark p - map served_mark ps ! i"
    using assms by (simp add: sum_list_update)
  moreover have "map served_mark ps ! i \<le> sum_list (map served_mark ps)"
    using assms by (simp add: member_le_sum_list)
  ultimately show ?thesis using assms by (simp add: map_update)
qed

lemma inv_count_update:
  assumes inv: "inv_count K b sf d ps" and i: "i < length ps"
    and mark: "served_mark p = served_mark (ps ! i)"
    and empty: "p = queue_empty \<Longrightarrow> pool b sf d = []"
    and resp: "\<And>r. p = Finished r \<Longrightarrow> p = queue_empty \<or> served_of p \<noteq> None"
  shows "inv_count K b sf d (ps[i := p])"
proof -
  have sub: "set (ps[i := p]) \<subseteq> insert p (set ps)"
    by (rule set_update_subset_insert)
  have "sum_list (map served_mark (ps[i := p])) = sum_list (map served_mark ps)"
    using sum_list_served_mark_update [OF i, of p] mark by simp
  moreover have "queue_empty \<in> set (ps[i := p]) \<longrightarrow> pool b sf d = []"
    using sub inv empty unfolding inv_count_def by blast
  moreover have "\<forall>q \<in> set (ps[i := p]). \<forall>r. q = Finished r \<longrightarrow>
                   q = queue_empty \<or> served_of q \<noteq> None"
    using sub inv resp unfolding inv_count_def by blast
  ultimately show ?thesis using inv unfolding inv_count_def by simp
qed

text \<open>The commit of a locked row of the pool.\<close>

lemma not_in_pool_mark_serving: "\<not> in_pool b sf (mark_serving cid now t)"
  by (simp add: in_pool_def mark_serving_def)

lemma status_mark_serving: "status (mark_serving cid now t) = ''serving''"
  by (simp add: mark_serving_def)

lemma same_id_same_row:
  assumes "distinct (map ticket_id ts)" and "t \<in> set ts" and "u \<in> set ts"
    and "ticket_id u = ticket_id t"
  shows "u = t"
  using assms by (metis distinct_map inj_on_def)

lemma filter_update_one:
  assumes "distinct (map ticket_id ts)" and "t \<in> set ts" and "P t" and "\<not> P (f t)"
  shows "length (filter P (map (\<lambda>u. if ticket_id u = ticket_id t then f u else u) ts)) + 1
           = length (filter P ts)"
  using assms(1,2)
proof (induction ts)
  case Nil
  then show ?case by simp
next
  case (Cons a ts)
  show ?case
  proof (cases "a = t")
    case True
    with Cons.prems(1) have "\<forall>u \<in> set ts. ticket_id u \<noteq> ticket_id t"
      by (metis distinct.simps(2) imageI list.simps(9) list.set_map)
    then have "map (\<lambda>u. if ticket_id u = ticket_id t then f u else u) ts = ts"
      by (simp add: map_idI)
    with True assms(3,4) show ?thesis by simp
  next
    case False
    with Cons.prems have mem: "t \<in> set ts" and d: "distinct (map ticket_id ts)" by simp_all
    have "ticket_id a \<noteq> ticket_id t"
      using Cons.prems(1) mem by (metis distinct.simps(2) imageI list.simps(9) list.set_map)
    with Cons.IH [OF d mem] show ?thesis by simp
  qed
qed

lemma pool_after_commit:
  assumes "distinct (map ticket_id (tickets d))" and "t \<in> set (tickets d)" and "in_pool b sf t"
  shows "length (pool b sf (update_where_id (ticket_id t) (mark_serving cid now) d)) + 1
           = length (pool b sf d)"
  using filter_update_one [OF assms(1,2), of "in_pool b sf" "mark_serving cid now"] assms(3)
  by (simp add: pool_def update_where_id_tables not_in_pool_mark_serving)

lemma other_row_after_commit:
  assumes "u \<in> set (tickets d)" and "ticket_id u \<noteq> tid"
  shows "u \<in> set (tickets (update_where_id tid f d))"
proof -
  have "(\<lambda>t. if ticket_id t = tid then f t else t) u \<in>
          (\<lambda>t. if ticket_id t = tid then f t else t) ` set (tickets d)"
    using assms(1) by (rule imageI)
  with assms(2) show ?thesis by (simp add: update_where_id_tables)
qed

lemma serving_row_after_commit:
  assumes "\<exists>row \<in> set (tickets d). ticket_id row = a \<and> status row = ''serving''"
  shows "\<exists>row \<in> set (tickets (update_where_id tid (mark_serving cid now) d)).
           ticket_id row = a \<and> status row = ''serving''"
proof -
  from assms obtain row where r: "row \<in> set (tickets d)" "ticket_id row = a"
    "status row = ''serving''" by blast
  let ?g = "\<lambda>t. if ticket_id t = tid then mark_serving cid now t else t"
  have "?g row \<in> ?g ` set (tickets d)" using r(1) by (rule imageI)
  then have "?g row \<in> set (tickets (update_where_id tid (mark_serving cid now) d))"
    by (simp add: update_where_id_tables)
  moreover have "ticket_id (?g row) = a" and "status (?g row) = ''serving''"
    using r(2,3) by (simp_all add: ticket_id_mark_serving status_mark_serving)
  ultimately show ?thesis by blast
qed

lemma committed_row_after_commit:
  assumes "t \<in> set (tickets d)"
  shows "\<exists>row \<in> set (tickets (update_where_id (ticket_id t) (mark_serving cid now) d)).
           ticket_id row = ticket_id t \<and> status row = ''serving''"
proof -
  let ?g = "\<lambda>u. if ticket_id u = ticket_id t then mark_serving cid now u else u"
  have "?g t \<in> ?g ` set (tickets d)" using assms by (rule imageI)
  then have "mark_serving cid now t \<in>
               set (tickets (update_where_id (ticket_id t) (mark_serving cid now) d))"
    by (simp add: update_where_id_tables)
  then show ?thesis
    using ticket_id_mark_serving status_mark_serving by blast
qed

lemma inv_store_after_commit:
  assumes inv: "inv_store d0 b sf d" and t: "t \<in> set (tickets d)" and p: "in_pool b sf t"
  shows "inv_store d0 b sf (update_where_id (ticket_id t) (mark_serving cid now) d)"
proof -
  let ?d' = "update_where_id (ticket_id t) (mark_serving cid now) d"
  from inv have c: "counters d = counters d0" and dist: "distinct (map ticket_id (tickets d))"
    and len: "length (tickets d) = length (tickets d0)"
    and rows: "\<And>i. i < length (tickets d0) \<Longrightarrow>
       tickets d ! i = tickets d0 ! i \<or>
       (in_pool b sf (tickets d0 ! i) \<and> status (tickets d ! i) = ''serving'')"
    unfolding inv_store_def by blast+
  have ids: "map ticket_id (tickets ?d') = map ticket_id (tickets d)"
    by (simp add: update_where_id_tables ticket_id_mark_serving)
  have "tickets ?d' ! i = tickets d0 ! i \<or>
        (in_pool b sf (tickets d0 ! i) \<and> status (tickets ?d' ! i) = ''serving'')"
    if i: "i < length (tickets d0)" for i
  proof (cases "ticket_id (tickets d ! i) = ticket_id t")
    case True
    from i len have m: "tickets d ! i \<in> set (tickets d)" by simp
    have e: "tickets d ! i = t" using dist t m True by (rule same_id_same_row)
    from p have "status t \<noteq> ''serving''" by (simp add: in_pool_def)
    with rows [OF i] e have "t = tickets d0 ! i" by auto
    with p have "in_pool b sf (tickets d0 ! i)" by simp
    moreover have "status (tickets ?d' ! i) = ''serving''"
      using i len True by (simp add: nth_update_where_id status_mark_serving)
    ultimately show ?thesis by simp
  next
    case False
    with i len have "tickets ?d' ! i = tickets d ! i"
      by (simp add: nth_update_where_id)
    with rows [OF i] show ?thesis by simp
  qed
  moreover have "distinct (map ticket_id (tickets ?d'))"
    unfolding ids by (rule dist)
  moreover have "counters ?d' = counters d0" and "length (tickets ?d') = length (tickets d0)"
    using c len by (simp_all add: update_where_id_tables)
  ultimately show ?thesis
    unfolding inv_store_def by blast
qed

lemma inv_locks_commit:
  assumes inv: "inv_locks b sf d ps" and i: "i < length ps"
    and r: "row_of (ps ! i) = Some t" and p: "row_of p = None"
  shows "inv_locks b sf (update_where_id (ticket_id t) f d) (ps[i := p])"
  unfolding inv_locks_def
proof (intro allI impI)
  fix j u
  assume j: "j < length (ps[i := p])" and ru: "row_of (ps[i := p] ! j) = Some u"
  from ru p i j have ne: "j \<noteq> i" by auto
  with ru j have rj: "row_of (ps ! j) = Some u" and jl: "j < length ps" by simp_all
  from inv jl rj have m: "u \<in> set (tickets d)" and pu: "in_pool b sf u"
    and ex: "\<And>j' t'. j' < length ps \<Longrightarrow> j' \<noteq> j \<Longrightarrow> row_of (ps ! j') = Some t' \<Longrightarrow>
               ticket_id t' \<noteq> ticket_id u"
    unfolding inv_locks_def by blast+
  from ex [OF i _ r] ne have "ticket_id u \<noteq> ticket_id t" by auto
  with m have m': "u \<in> set (tickets (update_where_id (ticket_id t) f d))"
    by (rule other_row_after_commit)
  have "ticket_id t' \<noteq> ticket_id u"
    if a: "j' < length (ps[i := p])" and b: "j' \<noteq> j" and c: "row_of (ps[i := p] ! j') = Some t'"
    for j' t'
  proof -
    from c p i a have "j' \<noteq> i" by auto
    with a c have "row_of (ps ! j') = Some t'" and "j' < length ps" by simp_all
    with b show ?thesis using ex by blast
  qed
  with m' pu show "u \<in> set (tickets (update_where_id (ticket_id t) f d)) \<and> in_pool b sf u \<and>
        (\<forall>j' < length (ps[i := p]). \<forall>t'. j' \<noteq> j \<and> row_of (ps[i := p] ! j') = Some t' \<longrightarrow>
           ticket_id t' \<noteq> ticket_id u)"
    by blast
qed

lemma inv_served_store:
  assumes "inv_served d ps"
  shows "inv_served (update_where_id tid (mark_serving cid now) d) ps"
  using assms serving_row_after_commit [of d _ tid cid now]
  unfolding inv_served_def by blast

lemma inv_served_commit:
  assumes inv: "inv_served d ps" and i: "i < length ps"
    and dist: "distinct (map ticket_id (tickets d))"
    and t: "t \<in> set (tickets d)" and w: "status t = ''waiting''"
  shows "inv_served (update_where_id (ticket_id t) (mark_serving cid now) d)
           (ps[i := Committed t])"
proof (rule inv_served_update [OF inv_served_store [OF inv] i])
  fix a
  assume "served_of (Committed t) = Some a"
  then have a: "a = ticket_id t" by simp
  have "served_of (ps ! j) \<noteq> Some a" if j: "j < length ps" for j
  proof
    assume "served_of (ps ! j) = Some a"
    with inv j obtain row where "row \<in> set (tickets d)" and "ticket_id row = a"
      and s: "status row = ''serving''"
      unfolding inv_served_def by blast
    with dist t a have "row = t" by (simp add: same_id_same_row)
    with s w show False by simp
  qed
  then show "(\<exists>row \<in> set (tickets (update_where_id (ticket_id t) (mark_serving cid now) d)).
               ticket_id row = a \<and> status row = ''serving'') \<and>
             (\<forall>j < length ps. j \<noteq> i \<longrightarrow> served_of (ps ! j) \<noteq> Some a)"
    using committed_row_after_commit [OF t, of cid now] a by blast
qed

lemma inv_count_commit:
  assumes inv: "inv_count K b sf d ps" and i: "i < length ps"
    and r: "row_of (ps ! i) = Some t"
    and dist: "distinct (map ticket_id (tickets d))"
    and t: "t \<in> set (tickets d)" and p: "in_pool b sf t"
  shows "inv_count K b sf (update_where_id (ticket_id t) (mark_serving cid now) d)
           (ps[i := Committed t])"
proof -
  let ?d' = "update_where_id (ticket_id t) (mark_serving cid now) d"
  from r have m0: "served_mark (ps ! i) = 0"
    by (cases "ps ! i") (simp_all add: served_mark_def)
  have m1: "served_mark (Committed t) = 1"
    by (simp add: served_mark_def)
  have s: "sum_list (map served_mark (ps[i := Committed t])) = sum_list (map served_mark ps) + 1"
    using sum_list_served_mark_update [OF i, of "Committed t"] m0 m1 by simp
  have l: "length (pool b sf ?d') + 1 = length (pool b sf d)"
    using dist t p by (rule pool_after_commit)
  from t p have ne: "pool b sf d \<noteq> []"
    by (auto simp add: pool_def filter_empty_conv)
  have sub: "set (ps[i := Committed t]) \<subseteq> insert (Committed t) (set ps)"
    by (rule set_update_subset_insert)
  have q: "Committed t \<noteq> queue_empty"
    by (simp add: queue_empty_def)
  from inv have k: "sum_list (map served_mark ps) + length (pool b sf d) = K"
    and e: "queue_empty \<in> set ps \<longrightarrow> pool b sf d = []"
    and f: "\<forall>p \<in> set ps. \<forall>r. p = Finished r \<longrightarrow> p = queue_empty \<or> served_of p \<noteq> None"
    unfolding inv_count_def by blast+
  have 1: "sum_list (map served_mark (ps[i := Committed t])) + length (pool b sf ?d') = K"
    using s l k by simp
  have "queue_empty \<notin> set ps"
    using e ne by blast
  with sub q have "queue_empty \<notin> set (ps[i := Committed t])"
    by (metis insert_iff subsetD)
  then have 2: "queue_empty \<in> set (ps[i := Committed t]) \<longrightarrow> pool b sf ?d' = []"
    by simp
  have 3: "\<forall>p \<in> set (ps[i := Committed t]). \<forall>r. p = Finished r \<longrightarrow>
             p = queue_empty \<or> served_of p \<noteq> None"
    using sub f by blast
  from 1 2 3 show ?thesis unfolding inv_count_def by blast
qed

lemma invariant_set_phase:
  assumes i: "i < length (sessions cs)"
    and "inv_store d0 b sf d'"
    and "\<forall>s \<in> set (sessions cs). pool_request b sf d0 (s_env s, s_req s)"
    and "inv_locks b sf d' ((map s_phase (sessions cs))[i := p])"
    and "inv_served d' ((map s_phase (sessions cs))[i := p])"
    and "inv_count (length (pool b sf d0)) b sf d' ((map s_phase (sessions cs))[i := p])"
  shows "invariant d0 b sf (set_phase i p (cs\<lparr>store := d'\<rparr>))"
proof -
  let ?cs = "set_phase i p (cs\<lparr>store := d'\<rparr>)"
  have st: "store ?cs = d'" by (simp add: set_phase_simps)
  have ph: "map s_phase (sessions ?cs) = (map s_phase (sessions cs))[i := p]"
    using i by (simp add: set_phase_simps)
  have "pool_request b sf d0 (s_env s, s_req s)" if "s \<in> set (sessions ?cs)" for s
  proof -
    from set_phase_simps(4) [OF that] obtain s' where "s' \<in> set (sessions cs)"
      and "s_env s = s_env s'" and "s_req s = s_req s'" by auto
    with assms(3) show ?thesis by simp
  qed
  with assms(2,4,5,6) show ?thesis
    unfolding invariant_def st ph by blast
qed

lemma served_id_fetched:
  "fetch_ticket d tid = Some r \<Longrightarrow>
     served_of (Finished (Response 200 (Ticket (Some r)))) = Some tid"
  by (simp add: fetch_ticket_id)

lemma step_invariant:
  assumes inv: "invariant d0 b sf cs"
  shows "invariant d0 b sf (step i cs)"
proof (cases "i < length (sessions cs)")
  case False
  then show ?thesis using inv by (simp add: step_def)
next
  case i: True
  let ?d = "store cs" and ?ps = "map s_phase (sessions cs)"
  let ?K = "length (pool b sf d0)"
  let ?cid = "string_value (cn_counter_id (s_req (sessions cs ! i)))"
  from inv have st: "inv_store d0 b sf ?d"
    and rq: "\<forall>s \<in> set (sessions cs). pool_request b sf d0 (s_env s, s_req s)"
    and lk: "inv_locks b sf ?d ?ps"
    and sv: "inv_served ?d ?ps"
    and ct: "inv_count ?K b sf ?d ?ps"
    unfolding invariant_def by blast+
  from i have il: "i < length ?ps" and pi: "?ps ! i = s_phase (sessions cs ! i)"
    by simp_all
  from rq i have pr: "pool_request b sf d0 (s_env (sessions cs ! i), s_req (sessions cs ! i))"
    by simp
  from st have dist: "distinct (map ticket_id (tickets ?d))"
    and cnt: "counters ?d = counters d0"
    unfolding inv_store_def by blast+
  from pr cnt have cb: "counters ?d ?cid = Some (Some b)"
    by (simp add: pool_request_def)
  have same: "cs\<lparr>store := ?d\<rparr> = cs" by simp
  note keep = invariant_set_phase [OF i st rq, unfolded same]
  show ?thesis
  proof (rule step_cases [OF i pr])
    assume "step i cs = cs"
    with inv show ?thesis by simp
  next
    assume ph: "s_phase (sessions cs ! i) = Started"
      and sel: "select_next ?d ?cid sf = None"
      and eq: "step i cs = set_phase i queue_empty cs"
    from sel have e: "pool b sf ?d = []"
      by (simp add: select_next_pool [OF cb] first_in_order_None)
    have 1: "inv_locks b sf ?d (?ps[i := queue_empty])"
      by (rule inv_locks_update [OF lk il]) (simp add: queue_empty_def)
    have 2: "inv_served ?d (?ps[i := queue_empty])"
      by (rule inv_served_update [OF sv il]) (simp add: queue_empty_def)
    have 3: "inv_count ?K b sf ?d (?ps[i := queue_empty])"
      by (rule inv_count_update [OF ct il])
         (simp_all add: pi ph e served_mark_def queue_empty_def)
    show ?thesis unfolding eq using 1 2 3 by (rule keep)
  next
    fix t
    assume ph: "s_phase (sessions cs ! i) = Started"
      and sel: "select_next ?d ?cid sf = Some t"
      and free: "\<not> locked_by_other i (ticket_id t) cs"
      and eq: "step i cs = set_phase i (Locked t) cs"
    from sel have m: "t \<in> set (tickets ?d)" and p: "in_pool b sf t"
      using select_next_eligible [of ?d ?cid sf t] eligible_in_pool [OF cb, of sf t] by simp_all
    from free have ex: "\<forall>j < length ?ps. \<forall>t'. j \<noteq> i \<and> row_of (?ps ! j) = Some t' \<longrightarrow>
                          ticket_id t' \<noteq> ticket_id t"
      by (auto simp add: locked_by_other_iff)
    have 1: "inv_locks b sf ?d (?ps[i := Locked t])"
      by (rule inv_locks_update [OF lk il]) (use m p ex in simp)
    have 2: "inv_served ?d (?ps[i := Locked t])"
      by (rule inv_served_update [OF sv il]) simp
    have 3: "inv_count ?K b sf ?d (?ps[i := Locked t])"
      by (rule inv_count_update [OF ct il])
         (simp_all add: pi ph served_mark_def queue_empty_def)
    show ?thesis unfolding eq using 1 2 3 by (rule keep)
  next
    fix t
    assume ph: "s_phase (sessions cs ! i) = Locked t"
      and eq: "step i cs = set_phase i (Written t) cs"
    from lk il pi ph have old: "t \<in> set (tickets ?d) \<and> in_pool b sf t \<and>
        (\<forall>j' < length ?ps. \<forall>t'. j' \<noteq> i \<and> row_of (?ps ! j') = Some t' \<longrightarrow>
           ticket_id t' \<noteq> ticket_id t)"
      unfolding inv_locks_def by (metis row_of.simps(1))
    have 1: "inv_locks b sf ?d (?ps[i := Written t])"
      by (rule inv_locks_update [OF lk il]) (use old in simp)
    have 2: "inv_served ?d (?ps[i := Written t])"
      by (rule inv_served_update [OF sv il]) simp
    have 3: "inv_count ?K b sf ?d (?ps[i := Written t])"
      by (rule inv_count_update [OF ct il])
         (simp_all add: pi ph served_mark_def queue_empty_def)
    show ?thesis unfolding eq using 1 2 3 by (rule keep)
  next
    fix t :: ticket
    let ?d' = "update_where_id (ticket_id t)
                 (mark_serving ?cid (cn_now (s_env (sessions cs ! i)))) ?d"
    assume ph: "s_phase (sessions cs ! i) = Written t"
      and eq: "step i cs = set_phase i (Committed t) (cs\<lparr>store := ?d'\<rparr>)"
    from ph pi have r: "row_of (?ps ! i) = Some t" by simp
    from lk il r have m: "t \<in> set (tickets ?d)" and p: "in_pool b sf t"
      unfolding inv_locks_def by blast+
    from p have w: "status t = ''waiting''" by (simp add: in_pool_def)
    have 0: "inv_store d0 b sf ?d'"
      using st m p by (rule inv_store_after_commit)
    have 1: "inv_locks b sf ?d' (?ps[i := Committed t])"
      using lk il r by (rule inv_locks_commit) simp
    have 2: "inv_served ?d' (?ps[i := Committed t])"
      using sv il dist m w by (rule inv_served_commit)
    have 3: "inv_count ?K b sf ?d' (?ps[i := Committed t])"
      using ct il r dist m p by (rule inv_count_commit)
    show ?thesis unfolding eq using i 0 rq 1 2 3 by (rule invariant_set_phase)
  next
    fix t r
    assume ph: "s_phase (sessions cs ! i) = Committed t"
      and f: "fetch_ticket ?d (ticket_id t) = Some r"
      and eq: "step i cs = set_phase i (Finished (Response 200 (Ticket (Some r)))) cs"
    let ?p = "Finished (Response 200 (Ticket (Some r)))"
    from f have so: "served_of ?p = Some (ticket_id t)" by (rule served_id_fetched)
    from ph pi have si: "served_of (?ps ! i) = Some (ticket_id t)" by simp
    from sv il si have old: "(\<exists>row \<in> set (tickets ?d). ticket_id row = ticket_id t \<and>
                                status row = ''serving'') \<and>
        (\<forall>j' < length ?ps. j' \<noteq> i \<longrightarrow> served_of (?ps ! j') \<noteq> Some (ticket_id t))"
      unfolding inv_served_def by blast
    have 1: "inv_locks b sf ?d (?ps[i := ?p])"
      by (rule inv_locks_update [OF lk il]) simp
    have 2: "inv_served ?d (?ps[i := ?p])"
      by (rule inv_served_update [OF sv il]) (use old so in auto)
    have 3: "inv_count ?K b sf ?d (?ps[i := ?p])"
    proof (rule inv_count_update [OF ct il])
      show "served_mark ?p = served_mark (?ps ! i)"
        using so si by (simp add: served_mark_def)
      show "pool b sf ?d = []" if "?p = queue_empty"
        using that by (simp add: queue_empty_def)
      show "?p = queue_empty \<or> served_of ?p \<noteq> None" if "?p = Finished r'" for r'
        using so by simp
    qed
    show ?thesis unfolding eq using 1 2 3 by (rule keep)
  next
    fix t
    assume ph: "s_phase (sessions cs ! i) = Committed t"
      and f: "fetch_ticket ?d (ticket_id t) = None"
    from ph pi have "served_of (?ps ! i) = Some (ticket_id t)" by simp
    with sv il obtain row where "row \<in> set (tickets ?d)" and "ticket_id row = ticket_id t"
      unfolding inv_served_def by blast
    with f have False
      by (auto simp add: fetch_ticket_def find_None_iff)
    then show ?thesis ..
  qed
qed

lemma exec_invariant: "invariant d0 b sf cs \<Longrightarrow> invariant d0 b sf (exec sched cs)"
  by (induction sched arbitrary: cs) (simp_all add: step_invariant)

lemma start_invariant:
  assumes "distinct (map ticket_id (tickets d))" and "\<forall>r \<in> set rs. pool_request b sf d r"
  shows "invariant d b sf (start d rs)"
proof -
  have ph: "map s_phase (sessions (start d rs)) = replicate (length rs) Started"
    by (simp add: start_def map_replicate_const split_def comp_def)
  have 1: "inv_store d b sf d"
    using assms(1) by (simp add: inv_store_def)
  have 2: "\<forall>s \<in> set (sessions (start d rs)). pool_request b sf d (s_env s, s_req s)"
    using assms(2) by (auto simp add: start_def)
  have 3: "inv_locks b sf d (replicate (length rs) Started)"
    by (simp add: inv_locks_def)
  have 4: "inv_served d (replicate (length rs) Started)"
    by (simp add: inv_served_def)
  have 5: "inv_count (length (pool b sf d)) b sf d (replicate (length rs) Started)"
    by (auto simp add: inv_count_def served_mark_def queue_empty_def sum_list_replicate)
  have st: "store (start d rs) = d" by (simp add: start_def)
  from 1 2 3 4 5 show ?thesis
    unfolding invariant_def ph st by blast
qed

lemma set_phase_sessions:
  assumes "s \<in> set (sessions (set_phase i p cs))"
  shows "s \<in> set (sessions cs) \<or> s_phase s = p"
proof -
  from assms have "s \<in> insert ((sessions cs ! i)\<lparr>s_phase := p\<rparr>) (set (sessions cs))"
    using set_update_subset_insert [of "sessions cs" i] by (auto simp add: set_phase_def)
  then show ?thesis by auto
qed

lemma pool_row_origin:
  assumes "inv_store d0 b sf d" and "t \<in> set (tickets d)" and "in_pool b sf t"
  shows "t \<in> set (pool b sf d0)"
proof -
  from assms(2) obtain i where i: "i < length (tickets d)" and t: "tickets d ! i = t"
    by (auto simp add: in_set_conv_nth)
  from assms(1) have len: "length (tickets d) = length (tickets d0)"
    and rows: "\<And>i. i < length (tickets d0) \<Longrightarrow>
       tickets d ! i = tickets d0 ! i \<or>
       (in_pool b sf (tickets d0 ! i) \<and> status (tickets d ! i) = ''serving'')"
    unfolding inv_store_def by blast+
  from assms(3) have "status t \<noteq> ''serving''" by (simp add: in_pool_def)
  with rows [of i] i len t have "t = tickets d0 ! i" by auto
  with i len have "t \<in> set (tickets d0)" by simp
  with assms(3) show ?thesis by (simp add: pool_def)
qed

lemma step_origin:
  assumes inv: "invariant d0 b sf cs" and org: "inv_origin d0 b sf cs"
  shows "inv_origin d0 b sf (step i cs)"
proof (cases "i < length (sessions cs)")
  case False
  then show ?thesis using org by (simp add: step_def)
next
  case i: True
  from inv have st: "inv_store d0 b sf (store cs)"
    and rq: "\<forall>s \<in> set (sessions cs). pool_request b sf d0 (s_env s, s_req s)"
    and lk: "inv_locks b sf (store cs) (map s_phase (sessions cs))"
    unfolding invariant_def by blast+
  from rq i have pr: "pool_request b sf d0 (s_env (sessions cs ! i), s_req (sessions cs ! i))"
    by simp
  from i have mem: "sessions cs ! i \<in> set (sessions cs)" by simp
  have keep: "inv_origin d0 b sf (set_phase i p cs')"
    if "sessions cs' = sessions cs"
      and "\<And>a. served_of p = Some a \<Longrightarrow> a \<in> ticket_id ` set (pool b sf d0)" for p cs'
    unfolding inv_origin_def
  proof (intro ballI allI impI)
    fix s a
    assume s: "s \<in> set (sessions (set_phase i p cs'))" and a: "served_of (s_phase s) = Some a"
    from set_phase_sessions [OF s] that(1) have "s \<in> set (sessions cs) \<or> s_phase s = p"
      by simp
    then show "a \<in> ticket_id ` set (pool b sf d0)"
      using a org that(2) unfolding inv_origin_def by auto
  qed
  show ?thesis
  proof (rule step_cases [OF i pr])
    assume "step i cs = cs"
    with org show ?thesis by simp
  next
    assume eq: "step i cs = set_phase i queue_empty cs"
    show ?thesis unfolding eq by (rule keep) (simp_all add: queue_empty_def)
  next
    fix t
    assume eq: "step i cs = set_phase i (Locked t) cs"
    show ?thesis unfolding eq by (rule keep) simp_all
  next
    fix t
    assume eq: "step i cs = set_phase i (Written t) cs"
    show ?thesis unfolding eq by (rule keep) simp_all
  next
    fix t :: ticket
    let ?d' = "update_where_id (ticket_id t)
                 (mark_serving (string_value (cn_counter_id (s_req (sessions cs ! i))))
                    (cn_now (s_env (sessions cs ! i)))) (store cs)"
    assume ph: "s_phase (sessions cs ! i) = Written t"
      and eq: "step i cs = set_phase i (Committed t) (cs\<lparr>store := ?d'\<rparr>)"
    from ph i have "row_of (map s_phase (sessions cs) ! i) = Some t" by simp
    with lk i have "t \<in> set (tickets (store cs))" and "in_pool b sf t"
      unfolding inv_locks_def by (metis length_map)+
    with st have "t \<in> set (pool b sf d0)" by (rule pool_row_origin)
    then have "ticket_id t \<in> ticket_id ` set (pool b sf d0)" by (rule imageI)
    then show ?thesis unfolding eq by (intro keep) simp_all
  next
    fix t r
    assume ph: "s_phase (sessions cs ! i) = Committed t"
      and f: "fetch_ticket (store cs) (ticket_id t) = Some r"
      and eq: "step i cs = set_phase i (Finished (Response 200 (Ticket (Some r)))) cs"
    from org mem ph have "ticket_id t \<in> ticket_id ` set (pool b sf d0)"
      unfolding inv_origin_def by simp
    then show ?thesis unfolding eq
      by (intro keep) (simp_all add: fetch_ticket_id [OF f])
  next
    fix t
    assume eq: "step i cs = set_phase i failed cs"
    show ?thesis unfolding eq by (rule keep) (simp_all add: failed_def)
  qed
qed

lemma exec_origin:
  "invariant d0 b sf cs \<Longrightarrow> inv_origin d0 b sf cs \<Longrightarrow> inv_origin d0 b sf (exec sched cs)"
  by (induction sched arbitrary: cs) (simp_all add: step_invariant step_origin)

lemma start_origin: "inv_origin d b sf (start d rs)"
  by (auto simp add: inv_origin_def start_def)

section \<open>The outcome of concurrent dispatch\<close>

lemma committed_ids_Cons:
  "committed_ids (p # ps) = (case served_of p of None \<Rightarrow> [] | Some a \<Rightarrow> [a]) @ committed_ids ps"
  by (simp add: committed_ids_def)

lemma length_committed_ids: "length (committed_ids ps) = sum_list (map served_mark ps)"
  by (induction ps) (simp_all add: committed_ids_def served_mark_def split: option.splits)

lemma set_committed_ids: "a \<in> set (committed_ids ps) \<longleftrightarrow> (\<exists>j < length ps. served_of (ps ! j) = Some a)"
proof -
  have "a \<in> set (committed_ids ps) \<longleftrightarrow> (\<exists>p \<in> set ps. served_of p = Some a)"
    by (force simp add: committed_ids_def split: option.splits)
  also have "\<dots> \<longleftrightarrow> (\<exists>j < length ps. served_of (ps ! j) = Some a)"
    unfolding set_conv_nth by blast
  finally show ?thesis .
qed

lemma distinct_committed_ids:
  assumes "\<And>j j' a. j < length ps \<Longrightarrow> j' < length ps \<Longrightarrow> j' \<noteq> j \<Longrightarrow>
             served_of (ps ! j) = Some a \<Longrightarrow> served_of (ps ! j') \<noteq> Some a"
  shows "distinct (committed_ids ps)"
  using assms
proof (induction ps)
  case Nil
  show ?case by (simp add: committed_ids_def)
next
  case (Cons p ps)
  have tail: "distinct (committed_ids ps)"
  proof (rule Cons.IH)
    fix j j' a
    assume "j < length ps" "j' < length ps" "j' \<noteq> j" "served_of (ps ! j) = Some a"
    then show "served_of (ps ! j') \<noteq> Some a"
      using Cons.prems [of "Suc j" "Suc j'" a] by simp
  qed
  show ?case
  proof (cases "served_of p")
    case None
    with tail show ?thesis by (simp add: committed_ids_Cons)
  next
    case (Some a)
    have "a \<notin> set (committed_ids ps)"
    proof
      assume "a \<in> set (committed_ids ps)"
      then obtain j where "j < length ps" and "served_of (ps ! j) = Some a"
        by (auto simp add: set_committed_ids)
      then show False
        using Cons.prems [of 0 "Suc j" a] Some by simp
    qed
    with tail Some show ?thesis by (simp add: committed_ids_Cons)
  qed
qed

lemma inv_served_distinct:
  assumes "inv_served d ps"
  shows "distinct (committed_ids ps)"
proof (rule distinct_committed_ids)
  fix j j' a
  assume "j < length ps" and "j' < length ps" and "j' \<noteq> j" and "served_of (ps ! j) = Some a"
  with assms show "served_of (ps ! j') \<noteq> Some a"
    unfolding inv_served_def by blast
qed

lemma served_ids_finished:
  assumes "all_finished cs"
  shows "served_ids cs = committed_ids (map s_phase (sessions cs))"
proof -
  have "list_all (\<lambda>s. response_of (s_phase s) \<noteq> None) ss \<Longrightarrow>
          concat (map (\<lambda>r. case served_id r of None \<Rightarrow> [] | Some a \<Rightarrow> [a])
            (concat (map (\<lambda>s. case response_of (s_phase s) of None \<Rightarrow> [] | Some r \<Rightarrow> [r]) ss)))
          = committed_ids (map s_phase ss)" for ss
  proof (induction ss)
    case Nil
    show ?case by (simp add: committed_ids_def)
  next
    case (Cons s ss)
    from Cons.prems obtain r where "s_phase s = Finished r"
      by (cases "s_phase s") simp_all
    with Cons show ?case by (simp add: committed_ids_Cons)
  qed
  with assms show ?thesis
    by (simp add: served_ids_def responses_def all_finished_def)
qed

lemma finished_counts:
  assumes "all_finished cs"
    and "\<forall>p \<in> set (map s_phase (sessions cs)). \<forall>r. p = Finished r \<longrightarrow>
           p = queue_empty \<or> served_of p \<noteq> None"
  shows "queue_empty_count cs + sum_list (map served_mark (map s_phase (sessions cs)))
           = length (sessions cs) \<and>
         length (responses cs) = length (sessions cs) \<and>
         (0 < queue_empty_count cs \<longrightarrow> queue_empty \<in> set (map s_phase (sessions cs)))"
proof -
  let ?e = "Response 200 (NoTicket ''No tickets in queue'')"
  let ?rs = "\<lambda>ss. concat (map (\<lambda>s. case response_of (s_phase s) of None \<Rightarrow> [] | Some r \<Rightarrow> [r]) ss)"
  have gen: "list_all (\<lambda>s. response_of (s_phase s) \<noteq> None) ss \<Longrightarrow>
        (\<forall>s \<in> set ss. \<forall>r. s_phase s = Finished r \<longrightarrow>
           s_phase s = queue_empty \<or> served_of (s_phase s) \<noteq> None) \<Longrightarrow>
        length (filter (\<lambda>r. r = ?e) (?rs ss)) + sum_list (map served_mark (map s_phase ss))
          = length ss \<and>
        length (?rs ss) = length ss \<and>
        (0 < length (filter (\<lambda>r. r = ?e) (?rs ss)) \<longrightarrow> queue_empty \<in> set (map s_phase ss))"
    for ss
  proof (induction ss)
    case Nil
    show ?case by simp
  next
    case (Cons s ss)
    from Cons.prems(1) obtain r where r: "s_phase s = Finished r"
      by (cases "s_phase s") simp_all
    from Cons have ih: "length (filter (\<lambda>r. r = ?e) (?rs ss)) +
          sum_list (map served_mark (map s_phase ss)) = length ss"
      "length (?rs ss) = length ss"
      "0 < length (filter (\<lambda>r. r = ?e) (?rs ss)) \<longrightarrow> queue_empty \<in> set (map s_phase ss)"
      by simp_all
    from Cons.prems(2) r have "r = ?e \<or> served_id r \<noteq> None"
      by (auto simp add: queue_empty_def)
    then show ?case
    proof
      assume e: "r = ?e"
      then have "served_mark (s_phase s) = 0"
        by (simp add: r served_mark_def)
      with e r ih show ?thesis by (simp add: queue_empty_def)
    next
      assume n: "served_id r \<noteq> None"
      then have "r \<noteq> ?e" by auto
      moreover from n have "served_mark (s_phase s) = 1"
        by (auto simp add: r served_mark_def)
      ultimately show ?thesis using r ih by simp
    qed
  qed
  have a1: "list_all (\<lambda>s. response_of (s_phase s) \<noteq> None) (sessions cs)"
    using assms(1) unfolding all_finished_def .
  have a2: "\<forall>s \<in> set (sessions cs). \<forall>r. s_phase s = Finished r \<longrightarrow>
           s_phase s = queue_empty \<or> served_of (s_phase s) \<noteq> None"
    using assms(2) by simp
  show ?thesis
    unfolding queue_empty_count_def responses_def using gen [OF a1 a2] .
qed

lemma distinct_pool_ids:
  "distinct (map ticket_id (tickets d)) \<Longrightarrow> distinct (map ticket_id (pool b sf d))"
  by (simp add: pool_def distinct_map_filter)

lemma dispatch_outcome:
  assumes inv: "invariant d b sf cs" and org: "inv_origin d b sf cs"
    and dist: "distinct (map ticket_id (tickets d))"
    and fin: "all_finished cs"
    and len: "length (sessions cs) = length (pool b sf d) + M" and M: "0 < M"
  shows "length (served_ids cs) = length (pool b sf d)"
    and "distinct (served_ids cs)"
    and "set (served_ids cs) = ticket_id ` set (pool b sf d)"
    and "queue_empty_count cs = M"
    and "length (responses cs) = length (sessions cs)"
    and "pool b sf (store cs) = []"
    and "\<forall>i < length (tickets d).
           if in_pool b sf (tickets d ! i)
           then status (tickets (store cs) ! i) = ''serving''
           else tickets (store cs) ! i = tickets d ! i"
proof -
  let ?ps = "map s_phase (sessions cs)" and ?K = "length (pool b sf d)"
  from inv have st: "inv_store d b sf (store cs)"
    and sv: "inv_served (store cs) ?ps"
    and ct: "inv_count ?K b sf (store cs) ?ps"
    unfolding invariant_def by blast+
  from ct have k: "sum_list (map served_mark ?ps) + length (pool b sf (store cs)) = ?K"
    and e: "queue_empty \<in> set ?ps \<longrightarrow> pool b sf (store cs) = []"
    and f: "\<forall>p \<in> set ?ps. \<forall>r. p = Finished r \<longrightarrow> p = queue_empty \<or> served_of p \<noteq> None"
    unfolding inv_count_def by blast+
  from finished_counts [OF fin f]
  have c: "queue_empty_count cs + sum_list (map served_mark ?ps) = length (sessions cs)"
    and r: "length (responses cs) = length (sessions cs)"
    and q: "0 < queue_empty_count cs \<longrightarrow> queue_empty \<in> set ?ps"
    by blast+
  from k have "sum_list (map served_mark ?ps) \<le> ?K" by simp
  with c len M have "0 < queue_empty_count cs" by simp
  with q e show p: "pool b sf (store cs) = []" by blast
  with k have s: "sum_list (map served_mark ?ps) = ?K" by simp
  with c len show "queue_empty_count cs = M" by simp
  from r show "length (responses cs) = length (sessions cs)" .
  have ids: "served_ids cs = committed_ids ?ps"
    using fin by (rule served_ids_finished)
  show l: "length (served_ids cs) = ?K"
    unfolding ids length_committed_ids by (rule s)
  show d: "distinct (served_ids cs)"
    unfolding ids using sv by (rule inv_served_distinct)
  have sub: "set (served_ids cs) \<subseteq> ticket_id ` set (pool b sf d)"
  proof
    fix a assume "a \<in> set (served_ids cs)"
    then obtain j where "j < length ?ps" and "served_of (?ps ! j) = Some a"
      unfolding ids by (auto simp add: set_committed_ids)
    then have "sessions cs ! j \<in> set (sessions cs)"
      and "served_of (s_phase (sessions cs ! j)) = Some a"
      by simp_all
    with org show "a \<in> ticket_id ` set (pool b sf d)"
      unfolding inv_origin_def by blast
  qed
  have "card (set (served_ids cs)) = ?K"
    using d l by (simp add: distinct_card)
  moreover have "card (ticket_id ` set (pool b sf d)) = ?K"
    using distinct_pool_ids [OF dist, of b sf]
    by (metis distinct_card length_map list.set_map)
  ultimately show "set (served_ids cs) = ticket_id ` set (pool b sf d)"
    using sub by (simp add: card_subset_eq)
  from st have sl: "length (tickets (store cs)) = length (tickets d)"
    and rows: "\<And>i. i < length (tickets d) \<Longrightarrow>
       tickets (store cs) ! i = tickets d ! i \<or>
       (in_pool b sf (tickets d ! i) \<and> status (tickets (store cs) ! i) = ''serving'')"
    unfolding inv_store_def by blast+
  show "\<forall>i < length (tickets d).
           if in_pool b sf (tickets d ! i)
           then status (tickets (store cs) ! i) = ''serving''
           else tickets (store cs) ! i = tickets d ! i"
  proof (intro allI impI)
    fix i assume i: "i < length (tickets d)"
    show "if in_pool b sf (tickets d ! i)
           then status (tickets (store cs) ! i) = ''serving''
           else tickets (store cs) ! i = tickets d ! i"
    proof (cases "in_pool b sf (tickets d ! i)")
      case True
      have "tickets (store cs) ! i \<noteq> tickets d ! i"
      proof
        assume eq: "tickets (store cs) ! i = tickets d ! i"
        from i sl have "tickets (store cs) ! i \<in> set (tickets (store cs))" by simp
        with eq True have "tickets d ! i \<in> set (pool b sf (store cs))"
          by (simp add: pool_def)
        with p show False by simp
      qed
      with rows [OF i] True show ?thesis by simp
    next
      case False
      with rows [OF i] show ?thesis by simp
    qed
  qed
qed

section \<open>Concurrent dispatch completes\<close>

lemma length_sessions_step: "length (sessions (step i cs)) = length (sessions cs)"
  by (simp add: step_def set_phase_def Let_def split: phase.splits option.splits)

lemma progress_le: "progress p \<le> 4"
  by (cases p) simp_all

lemma total_progress_le: "total_progress cs \<le> 4 * length (sessions cs)"
proof -
  have "sum_list (map (\<lambda>s. progress (s_phase s)) ss) \<le> 4 * length ss" for ss :: "session list"
    by (induction ss) (simp_all add: progress_le add_le_mono)
  then show ?thesis by (simp add: total_progress_def)
qed

lemma total_progress_set_phase:
  assumes "i < length (sessions cs)" and "sessions cs' = sessions cs"
  shows "total_progress (set_phase i p cs') + progress (s_phase (sessions cs ! i))
           = total_progress cs + progress p"
proof -
  let ?f = "\<lambda>s. progress (s_phase s)"
  have m: "map ?f (sessions (set_phase i p cs')) = (map ?f (sessions cs))[i := progress p]"
    using assms by (simp add: set_phase_def map_update)
  have "sum_list ((map ?f (sessions cs))[i := progress p])
          = sum_list (map ?f (sessions cs)) + progress p - map ?f (sessions cs) ! i"
    using assms(1) by (simp add: sum_list_update)
  moreover have "map ?f (sessions cs) ! i \<le> sum_list (map ?f (sessions cs))"
    using assms(1) by (simp add: member_le_sum_list)
  ultimately show ?thesis
    using assms(1) unfolding total_progress_def m by simp
qed

lemma step_advances:
  assumes i: "i < length (sessions cs)"
    and f: "cn_fault (s_env (sessions cs ! i)) = None"
    and c: "truthy (cn_counter_id (s_req (sessions cs ! i)))"
    and r: "response_of (s_phase (sessions cs ! i)) = None"
    and free: "\<And>t. s_phase (sessions cs ! i) = Started \<Longrightarrow>
       select_next (store cs) (string_value (cn_counter_id (s_req (sessions cs ! i))))
         (cn_service_id (s_req (sessions cs ! i))) = Some t \<Longrightarrow>
       \<not> locked_by_other i (ticket_id t) cs"
  shows "total_progress cs < total_progress (step i cs)"
proof -
  have adv: "total_progress cs < total_progress (set_phase i p cs')"
    if "sessions cs' = sessions cs" and "progress (s_phase (sessions cs ! i)) < progress p"
    for p cs'
    using total_progress_set_phase [OF i that(1), of p] that(2) by simp
  show ?thesis
  proof (cases "s_phase (sessions cs ! i)")
    case Started
    show ?thesis
    proof (cases "select_next (store cs) (string_value (cn_counter_id (s_req (sessions cs ! i))))
                    (cn_service_id (s_req (sessions cs ! i)))")
      case None
      with Started i f c have "step i cs =
          set_phase i (Finished (Response 200 (NoTicket ''No tickets in queue''))) cs"
        by (simp add: step_def Let_def)
      with Started show ?thesis by (simp add: adv)
    next
      case (Some t)
      with free Started have "\<not> locked_by_other i (ticket_id t) cs" by blast
      with Some Started i f c have "step i cs = set_phase i (Locked t) cs"
        by (simp add: step_def Let_def)
      with Started show ?thesis by (simp add: adv)
    qed
  next
    case (Locked t)
    with i f have "step i cs = set_phase i (Written t) cs"
      by (simp add: step_def Let_def)
    with Locked show ?thesis by (simp add: adv)
  next
    case (Written t)
    with i f have "step i cs = set_phase i (Committed t)
        (cs\<lparr>store := update_where_id (ticket_id t)
           (mark_serving (string_value (cn_counter_id (s_req (sessions cs ! i))))
              (cn_now (s_env (sessions cs ! i)))) (store cs)\<rparr>)"
      by (simp add: step_def Let_def)
    with Written show ?thesis by (simp add: adv)
  next
    case (Committed t)
    with i f have "\<exists>r. step i cs = set_phase i (Finished r) cs"
      by (cases "fetch_ticket (store cs) (ticket_id t)")
         (simp_all add: step_def Let_def failed_def, blast+)
    with Committed show ?thesis by (auto simp add: adv)
  next
    case (Finished x)
    with r show ?thesis by simp
  qed
qed

lemma some_step_advances:
  assumes inv: "invariant d0 b sf cs" and nf: "\<not> all_finished cs"
  shows "\<exists>i. total_progress cs < total_progress (step i cs)"
proof -
  from inv have rq: "\<forall>s \<in> set (sessions cs). pool_request b sf d0 (s_env s, s_req s)"
    unfolding invariant_def by blast
  have good: "cn_fault (s_env (sessions cs ! j)) = None \<and>
              truthy (cn_counter_id (s_req (sessions cs ! j)))"
    if "j < length (sessions cs)" for j
    using rq that by (simp add: pool_request_def)
  from nf obtain i where i: "i < length (sessions cs)"
    and r: "response_of (s_phase (sessions cs ! i)) = None"
    by (auto simp add: all_finished_def list_all_length)
  show ?thesis
  proof (cases "\<exists>t. s_phase (sessions cs ! i) = Started \<and>
      select_next (store cs) (string_value (cn_counter_id (s_req (sessions cs ! i))))
         (cn_service_id (s_req (sessions cs ! i))) = Some t \<and>
      locked_by_other i (ticket_id t) cs")
    case False
    then have "total_progress cs < total_progress (step i cs)"
      using good [OF i] by (intro step_advances [OF i _ _ r]) blast+
    then show ?thesis ..
  next
    case True
    then obtain t j u where j: "j < length (sessions cs)"
      and u: "row_of (s_phase (sessions cs ! j)) = Some u"
      by (auto simp add: locked_by_other_iff)
    from u have rj: "response_of (s_phase (sessions cs ! j)) = None"
      and ns: "s_phase (sessions cs ! j) \<noteq> Started"
      by (cases "s_phase (sessions cs ! j)"; simp)+
    have "total_progress cs < total_progress (step j cs)"
      using good [OF j] ns by (intro step_advances [OF j _ _ rj]) blast+
    then show ?thesis ..
  qed
qed

lemma completes:
  assumes "invariant d0 b sf cs"
  shows "\<exists>sched. all_finished (exec sched cs)"
  using assms
proof (induction "4 * length (sessions cs) - total_progress cs" arbitrary: cs rule: less_induct)
  case less
  show ?case
  proof (cases "all_finished cs")
    case True
    then have "all_finished (exec [] cs)" by simp
    then show ?thesis ..
  next
    case False
    with less.prems obtain i where i: "total_progress cs < total_progress (step i cs)"
      using some_step_advances by blast
    have "total_progress (step i cs) \<le> 4 * length (sessions (step i cs))"
      by (rule total_progress_le)
    with i have "4 * length (sessions (step i cs)) - total_progress (step i cs)
                   < 4 * length (sessions cs) - total_progress cs"
      by (simp add: length_sessions_step)
    moreover have "invariant d0 b sf (step i cs)"
      using less.prems by (rule step_invariant)
    ultimately obtain sched where "all_finished (exec sched (step i cs))"
      using less.hyps by blast
    then have "all_finished (exec (i # sched) cs)" by simp
    then show ?thesis ..
  qed
qed

text \<open>A session that runs alone does what the handler does.\<close>

lemma step_alone:
  fixes env req
  defines "S \<equiv> \<lambda>p d. \<lparr> store = d, sessions = [\<lparr> s_env = env, s_req = req, s_phase = p \<rparr>] \<rparr>"
  defines "cid \<equiv> string_value (cn_counter_id req)"
  shows "step 0 (S Started d) =
           (if \<not> truthy (cn_counter_id req)
            then S (Finished (Response 400 (Error ''counter_id is required''))) d
            else if cn_fault env = Some BeginTransaction \<or> cn_fault env = Some SelectNextTicket
            then S failed d
            else case select_next d cid (cn_service_id req) of
                   None \<Rightarrow> if cn_fault env = Some Commit then S failed d
                           else S (Finished (Response 200 (NoTicket ''No tickets in queue''))) d
                 | Some t \<Rightarrow> S (Locked t) d)"
    and "step 0 (S (Locked t) d) =
           (if cn_fault env = Some UpdateTicket then S failed d else S (Written t) d)"
    and "step 0 (S (Written t) d) =
           (if cn_fault env = Some Commit then S failed d
            else S (Committed t) (update_where_id (ticket_id t) (mark_serving cid (cn_now env)) d))"
    and "step 0 (S (Committed t) d) =
           (if cn_fault env = Some FetchTicket then S failed d
            else case fetch_ticket d (ticket_id t) of
                   None \<Rightarrow> S failed d
                 | Some r \<Rightarrow> S (Finished (Response 200 (Ticket (Some r)))) d)"
    and "step 0 (S (Finished r) d) = S (Finished r) d"
proof -
  have nl: "\<not> locked_by_other 0 tid (S p d')" for tid d' p
    by (simp add: locked_by_other_def S_def)
  show "step 0 (S Started d) =
           (if \<not> truthy (cn_counter_id req)
            then S (Finished (Response 400 (Error ''counter_id is required''))) d
            else if cn_fault env = Some BeginTransaction \<or> cn_fault env = Some SelectNextTicket
            then S failed d
            else case select_next d cid (cn_service_id req) of
                   None \<Rightarrow> if cn_fault env = Some Commit then S failed d
                           else S (Finished (Response 200 (NoTicket ''No tickets in queue''))) d
                 | Some t \<Rightarrow> S (Locked t) d)"
    using nl [of _ Started d]
    by (simp add: step_def set_phase_def Let_def S_def cid_def split: option.splits)
  show "step 0 (S (Locked t) d) =
           (if cn_fault env = Some UpdateTicket then S failed d else S (Written t) d)"
    by (simp add: step_def set_phase_def Let_def S_def)
  show "step 0 (S (Written t) d) =
           (if cn_fault env = Some Commit then S failed d
            else S (Committed t) (update_where_id (ticket_id t) (mark_serving cid (cn_now env)) d))"
    by (simp add: step_def set_phase_def Let_def S_def cid_def)
  show "step 0 (S (Committed t) d) =
           (if cn_fault env = Some FetchTicket then S failed d
            else case fetch_ticket d (ticket_id t) of
                   None \<Rightarrow> S failed d
                 | Some r \<Rightarrow> S (Finished (Response 200 (Ticket (Some r)))) d)"
    by (simp add: step_def set_phase_def Let_def S_def split: option.splits)
  show "step 0 (S (Finished r) d) = S (Finished r) d"
    by (simp add: step_def S_def)
qed


lemma single_session:
  "exec [0, 0, 0, 0] (start d [(env, req)]) =
     \<lparr> store = fst (call_next env req d),
       sessions = [\<lparr> s_env = env, s_req = req, s_phase = Finished (snd (call_next env req d)) \<rparr>] \<rparr>"
proof (cases "truthy (cn_counter_id req) \<and> cn_fault env \<noteq> Some BeginTransaction \<and>
              cn_fault env \<noteq> Some SelectNextTicket")
  case False
  then show ?thesis
    by (auto simp add: start_def step_alone call_next_def Let_def failed_def)
next
  case ok: True
  show ?thesis
  proof (cases "select_next d (string_value (cn_counter_id req)) (cn_service_id req)")
    case None
    with ok show ?thesis
      by (simp add: start_def step_alone call_next_def Let_def failed_def)
  next
    case (Some t)
    show ?thesis
    proof (cases "cn_fault env = Some UpdateTicket")
      case True
      with ok Some show ?thesis
        by (simp add: start_def step_alone call_next_def Let_def failed_def)
    next
      case nu: False
      show ?thesis
      proof (cases "cn_fault env = Some Commit")
        case True
        with ok Some nu show ?thesis
          by (simp add: start_def step_alone call_next_def Let_def failed_def)
      next
        case nc: False
        show ?thesis
        proof (cases "cn_fault env = Some FetchTicket")
          case True
          with ok Some nu nc show ?thesis
            by (simp add: start_def step_alone call_next_def Let_def failed_def)
        next
          case False
          with ok Some nu nc show ?thesis
            by (cases "fetch_ticket (update_where_id (ticket_id t)
                   (mark_serving (string_value (cn_counter_id req)) (cn_now env)) d)
                   (ticket_id t)")
               (simp_all add: start_def step_alone call_next_def Let_def failed_def)
        qed
      qed
    qed
  qed
qed

text \<open>
  Claim C2. Take a store with unique ticket ids and \<open>K + M\<close> dispatch requests, \<open>M > 0\<close>,
  for one pool (counters of one branch, one service filter, no call throwing), where
  \<open>K\<close> is the number of waiting tickets of the pool. Under every schedule of their steps,
  at every moment, no two requests have committed or returned the same ticket. The
  requests can always be run to completion, and however they are scheduled, once all have
  answered: exactly \<open>K\<close> responses carry a ticket, the tickets are pairwise distinct and
  are precisely the tickets of the pool, exactly \<open>M\<close> responses are the empty-queue
  response, and in the store exactly the tickets of the pool have become serving, every
  other row being as it was.
\<close>

theorem no_double_dispatch:
  assumes "distinct (map ticket_id (tickets d))"
    and "list_all (pool_request b sf d) rs"
    and "length rs = length (pool b sf d) + M" and "0 < M"
  shows "(\<forall>sched. distinct (committed_ids (map s_phase (sessions (exec sched (start d rs)))))) \<and>
         (\<exists>sched. all_finished (exec sched (start d rs))) \<and>
         (\<forall>sched. all_finished (exec sched (start d rs)) \<longrightarrow>
            length (responses (exec sched (start d rs))) = length (pool b sf d) + M \<and>
            length (served_ids (exec sched (start d rs))) = length (pool b sf d) \<and>
            distinct (served_ids (exec sched (start d rs))) \<and>
            set (served_ids (exec sched (start d rs))) = ticket_id ` set (pool b sf d) \<and>
            queue_empty_count (exec sched (start d rs)) = M \<and>
            pool b sf (store (exec sched (start d rs))) = [] \<and>
            (\<forall>i < length (tickets d).
               if in_pool b sf (tickets d ! i)
               then status (tickets (store (exec sched (start d rs))) ! i) = ''serving''
               else tickets (store (exec sched (start d rs))) ! i = tickets d ! i))"
proof (intro conjI allI impI)
  from assms(2) have rq: "\<forall>r \<in> set rs. pool_request b sf d r"
    by (simp add: list_all_iff)
  have i0: "invariant d b sf (start d rs)"
    using assms(1) rq by (rule start_invariant)
  have inv: "invariant d b sf (exec sched (start d rs))" for sched
    using i0 by (rule exec_invariant)
  have org: "inv_origin d b sf (exec sched (start d rs))" for sched
    using i0 start_origin by (rule exec_origin)
  have len: "length (sessions (exec sched (start d rs))) = length (pool b sf d) + M" for sched
  proof -
    have "length (sessions (exec sched cs)) = length (sessions cs)" for cs
      by (induction sched arbitrary: cs) (simp_all add: length_sessions_step)
    then show ?thesis by (simp add: start_def assms(3))
  qed
  show "distinct (committed_ids (map s_phase (sessions (exec sched (start d rs)))))" for sched
    using inv [of sched] inv_served_distinct unfolding invariant_def by blast
  show "\<exists>sched. all_finished (exec sched (start d rs))"
    using i0 by (rule completes)
  fix sched
  assume fin: "all_finished (exec sched (start d rs))"
  note out = dispatch_outcome [OF inv org assms(1) fin len assms(4)]
  show "length (responses (exec sched (start d rs))) = length (pool b sf d) + M"
    using out(5) len by simp
  show "length (served_ids (exec sched (start d rs))) = length (pool b sf d)"
    by (rule out(1))
  show "distinct (served_ids (exec sched (start d rs)))"
    by (rule out(2))
  show "set (served_ids (exec sched (start d rs))) = ticket_id ` set (pool b sf d)"
    by (rule out(3))
  show "queue_empty_count (exec sched (start d rs)) = M"
    by (rule out(4))
  show "pool b sf (store (exec sched (start d rs))) = []"
    by (rule out(6))
  show "if in_pool b sf (tickets d ! i)
        then status (tickets (store (exec sched (start d rs))) ! i) = ''serving''
        else tickets (store (exec sched (start d rs))) ! i = tickets d ! i"
    if "i < length (tickets d)" for i
    using out(7) that by blast
qed

theorem no_double_dispatch_witness:
  "distinct (map ticket_id (tickets example_queue)) \<and>
   list_all (pool_request ''B1'' None example_queue) example_requests \<and>
   length (pool ''B1'' None example_queue) = 3 \<and>
   length example_requests = length (pool ''B1'' None example_queue) + 2 \<and>
   all_finished (exec example_schedule (start example_queue example_requests)) \<and>
   served_ids (exec example_schedule (start example_queue example_requests))
     = [''t3'', ''t1'', ''t2''] \<and>
   distinct (served_ids (exec example_schedule (start example_queue example_requests))) \<and>
   queue_empty_count (exec example_schedule (start example_queue example_requests)) = 2 \<and>
   map status (tickets (store (exec example_schedule (start example_queue example_requests))))
     = [''serving'', ''serving'', ''serving'']"
proof -
  let ?f = "exec example_schedule (start example_queue example_requests)"
  have h1: "distinct (map ticket_id (tickets example_queue))"
    by (simp add: example_queue_def example_ticket_def)
  have h2: "list_all (pool_request ''B1'' None example_queue) example_requests"
    by code_simp
  have k: "length (pool ''B1'' None example_queue) = 3"
    by code_simp
  have h3: "length example_requests = length (pool ''B1'' None example_queue) + 2"
    unfolding k by (simp add: example_requests_def)
  have h4: "0 < (2::nat)" by simp
  have fin: "all_finished ?f"
    by code_simp
  have ids: "served_ids ?f = [''t3'', ''t1'', ''t2'']"
    by code_simp
  have st: "map status (tickets (store ?f)) = [''serving'', ''serving'', ''serving'']"
    by code_simp
  from no_double_dispatch [OF h1 h2 h3 h4] fin
  have "distinct (served_ids ?f)" and "queue_empty_count ?f = 2"
    by blast+
  with h1 h2 k h3 fin ids st show ?thesis by (intro conjI)
qed

end
